theory Spec2Isabelle
  imports Main "HOL-Library.Word"
begin

section \<open>The sweeper of the old-space mark-sweep collector\<close>

text \<open>
  A shallow embedding of \<^verbatim>\<open>runtime/vm/heap/sweeper.cc\<close>: \<^verbatim>\<open>GCSweeper::SweepPage\<close>,
  \<^verbatim>\<open>GCSweeper::SweepLargePage\<close> and \<^verbatim>\<open>ConcurrentSweeperTask\<close>.

  Machine integers are words. The target is a 64-bit one: \<^verbatim>\<open>uword\<close> and \<^verbatim>\<open>intptr_t\<close>
  are both \<open>64 word\<close>; addition and subtraction wrap, \<open><\<close> on addresses is the
  unsigned order of \<^verbatim>\<open>uword\<close>. A loop of the source is a \<^theory_text>\<open>partial_function\<close> in the option
  monad: \<open>None\<close> is a loop that never ends. Every function returns its effects: the
  heap, the page and the state of the old space are passed in and returned.
\<close>

subsection \<open>Data model\<close>

type_synonym uword = "64 word"

text \<open>
  The constants of \<^verbatim>\<open>vm/globals.h\<close> (not in this file) on such a target: a word has 8
  bytes.
\<close>

definition kWordSize :: nat where
  "kWordSize = 8"

definition kWordSizeLog2 :: nat where
  "kWordSizeLog2 = 3"

text \<open>\<^verbatim>\<open>HeapPage::PageType\<close>, with the two values that the sweeper names.\<close>

datatype PageType = kData | kExecutable

text \<open>
  Modelled from the spec: \<^verbatim>\<open>PageSpace::Phase\<close> (not in this file), the phases of a
  collection cycle in order.
\<close>

datatype Phase = kMarking | kSweeping | kDone

text \<open>
  Modelled from the spec: the macro \<^verbatim>\<open>ASSERT\<close> (not in this file). The spec takes a failed
  assertion as fatal; so is a read of a header where no object is, and the use of a page
  pointer that points to no page.
\<close>

datatype fatal = AssertionFailed | NotAnObject | NullPointer

text \<open>
  Modelled from the spec: the object header (\<^verbatim>\<open>RawObject\<close>, not in this file). The spec
  gives its contract: a mark bit, a heap size in bytes, and \<^verbatim>\<open>clearMark\<close>. Memory is an
  array of cells indexed by byte address. The cell at an object's address is its header
  \<open>Tags marked size\<close>; every other cell is a raw byte. A raw store over a header
  destroys it, and \<^verbatim>\<open>RawObject::FromAddr\<close> of such an address is no object any more.
\<close>

datatype cell = Tags bool uword | Raw "8 word"

text \<open>
  What the sweeper does to memory and to the free list, in program order: the reads of
  a mark bit, the writes, and the calls of the free-list sink (\<^verbatim>\<open>FreeList::Free\<close> and
  \<^verbatim>\<open>FreeList::FreeLocked\<close>, collaborators that are not in this file).
\<close>

datatype event =
    EvIsMarked uword
  | EvClearMarkBit uword
  | EvStoreWord uword uword
  | EvMemset uword "8 word" uword
  | EvFree uword uword uword
  | EvFreeLocked uword uword uword

record heap =
  mem :: "uword \<Rightarrow> cell"
  trace :: "event list"

text \<open>
  The constants and helpers of the VM that the sweeper uses and this file does not
  define are parameters: the break instruction filler of the target's assembler
  (\<^verbatim>\<open>compiler::Assembler::GetBreakInstructionFiller\<close>), the zap byte
  (\<^verbatim>\<open>Heap::kZapByte\<close>), whether the build defines \<^verbatim>\<open>DEBUG\<close>, and \<^verbatim>\<open>HeapPage::Of\<close>, which
  maps an object's address to the pointer of its page.
\<close>

record platform =
  GetBreakInstructionFiller :: uword
  kZapByte :: "8 word"
  DEBUG :: bool
  HeapPage_Of :: "uword \<Rightarrow> uword"

text \<open>
  The fields of a \<^verbatim>\<open>HeapPage\<close> behind the accessors that the sweeper calls: \<^verbatim>\<open>type()\<close>,
  \<^verbatim>\<open>is_image_page()\<close>, \<^verbatim>\<open>object_start()\<close>, \<^verbatim>\<open>object_end()\<close>, \<^verbatim>\<open>set_used_in_bytes()\<close> and
  \<^verbatim>\<open>next()\<close>. A page pointer is a \<^verbatim>\<open>uword\<close>; \<open>0\<close> is \<^verbatim>\<open>NULL\<close>.
\<close>

record HeapPage =
  page_type :: PageType
  is_image_page :: bool
  object_start :: uword
  object_end :: uword
  used_in_bytes :: uword
  next_page :: uword

subsection \<open>Object headers and raw stores\<close>

text \<open>
  \<^verbatim>\<open>RawObject::IsMarked\<close>, \<^verbatim>\<open>HeapSize\<close> and \<^verbatim>\<open>ClearMarkBit\<close> on the object at address \<open>a\<close>.
  A read of the mark bit is recorded.
\<close>

definition IsMarked :: "heap \<Rightarrow> uword \<Rightarrow> fatal + bool \<times> heap" where
  "IsMarked h a =
     (case mem h a of
        Tags marked sz \<Rightarrow> Inr (marked, h\<lparr>trace := trace h @ [EvIsMarked a]\<rparr>)
      | Raw b \<Rightarrow> Inl NotAnObject)"

definition HeapSize :: "heap \<Rightarrow> uword \<Rightarrow> fatal + uword" where
  "HeapSize h a =
     (case mem h a of
        Tags marked sz \<Rightarrow> Inr sz
      | Raw b \<Rightarrow> Inl NotAnObject)"

definition ClearMarkBit :: "heap \<Rightarrow> uword \<Rightarrow> fatal + heap" where
  "ClearMarkBit h a =
     (case mem h a of
        Tags marked sz \<Rightarrow>
          Inr (h\<lparr>mem := (mem h)(a := Tags False sz), trace := trace h @ [EvClearMarkBit a]\<rparr>)
      | Raw b \<Rightarrow> Inl NotAnObject)"

text \<open>The bytes of a \<^verbatim>\<open>uword\<close> in memory, least significant first, \<open>n\<close> of them.\<close>

definition uword_bytes :: "nat \<Rightarrow> uword \<Rightarrow> 8 word list" where
  "uword_bytes n v = map (\<lambda>j. ucast (drop_bit (8 * j) v)) [0..<n]"

fun write_bytes :: "(uword \<Rightarrow> cell) \<Rightarrow> uword \<Rightarrow> 8 word list \<Rightarrow> uword \<Rightarrow> cell" where
  "write_bytes m a [] = m"
| "write_bytes m a (b # bs) = write_bytes (m(a := Raw b)) (a + 1) bs"

text \<open>\<^verbatim>\<open>*reinterpret_cast<uword*>(cursor) = v\<close>\<close>

definition StoreWord :: "heap \<Rightarrow> uword \<Rightarrow> uword \<Rightarrow> heap" where
  "StoreWord h cursor v =
     h\<lparr>mem := write_bytes (mem h) cursor (uword_bytes kWordSize v),
       trace := trace h @ [EvStoreWord cursor v]\<rparr>"

text \<open>\<^verbatim>\<open>memset(a, byte, n)\<close>; the length is converted to \<^verbatim>\<open>size_t\<close>.\<close>

definition Memset :: "heap \<Rightarrow> uword \<Rightarrow> 8 word \<Rightarrow> uword \<Rightarrow> heap" where
  "Memset h a byte n =
     h\<lparr>mem := write_bytes (mem h) a (replicate (unat n) byte),
       trace := trace h @ [EvMemset a byte n]\<rparr>"

text \<open>
  Modelled from the spec: the free-list sink (\<^verbatim>\<open>FreeList\<close>, not in this file) accepts byte
  ranges through \<^verbatim>\<open>Free\<close>, which takes the lock of the list, and \<^verbatim>\<open>FreeLocked\<close>, whose
  caller holds it. The model records the call.
\<close>

definition Free :: "heap \<Rightarrow> uword \<Rightarrow> uword \<Rightarrow> uword \<Rightarrow> heap" where
  "Free h freelist a n = h\<lparr>trace := trace h @ [EvFree freelist a n]\<rparr>"

definition FreeLocked :: "heap \<Rightarrow> uword \<Rightarrow> uword \<Rightarrow> uword \<Rightarrow> heap" where
  "FreeLocked h freelist a n = h\<lparr>trace := trace h @ [EvFreeLocked freelist a n]\<rparr>"

subsection \<open>\<^verbatim>\<open>GCSweeper::SweepPage\<close>\<close>

text \<open>
  The inner loop of lines 41 to 49: \<^verbatim>\<open>while (free_end < end)\<close>, left by \<^verbatim>\<open>break\<close> at the
  first marked object.
\<close>

partial_function (option) extend_free_block ::
  "uword \<Rightarrow> uword \<Rightarrow> heap \<Rightarrow> (fatal + uword \<times> heap) option" where
  "extend_free_block end free_end h =
     (if free_end < end then
        (case IsMarked h free_end of
           Inl e \<Rightarrow> Some (Inl e)
         | Inr (marked, h1) \<Rightarrow>
             if marked then Some (Inr (free_end, h1))
             else (case HeapSize h1 free_end of
                     Inl e \<Rightarrow> Some (Inl e)
                   | Inr sz \<Rightarrow> extend_free_block end (free_end + sz) h1))
      else Some (Inr (free_end, h)))"

text \<open>The loop of lines 54 to 58, over the executable run \<open>[cursor, end)\<close>.\<close>

partial_function (option) fill_break ::
  "platform \<Rightarrow> uword \<Rightarrow> uword \<Rightarrow> heap \<Rightarrow> heap option" where
  "fill_break P end cursor h =
     (if cursor < end then
        fill_break P end (cursor + of_nat kWordSize)
          (StoreWord h cursor (GetBreakInstructionFiller P))
      else Some h)"

text \<open>
  The body of the outer loop, lines 31 to 73. It returns \<open>obj_size\<close>, the new
  \<open>used_in_bytes\<close> and the heap.
\<close>

definition sweep_body ::
  "platform \<Rightarrow> uword \<Rightarrow> HeapPage \<Rightarrow> uword \<Rightarrow> bool \<Rightarrow> uword \<Rightarrow> uword \<Rightarrow> heap
     \<Rightarrow> (fatal + uword \<times> uword \<times> heap) option" where
  "sweep_body P page pg freelist locked current used h =
     (let is_executable = (page_type pg = kExecutable);
          start = object_start pg;
          end = object_end pg
      in
      if HeapPage_Of P current \<noteq> page then Some (Inl AssertionFailed)
      else
        (case IsMarked h current of
           Inl e \<Rightarrow> Some (Inl e)
         | Inr (marked, h1) \<Rightarrow>
             if marked then
               (case ClearMarkBit h1 current of
                  Inl e \<Rightarrow> Some (Inl e)
                | Inr h2 \<Rightarrow>
                    (case HeapSize h2 current of
                       Inl e \<Rightarrow> Some (Inl e)
                     | Inr obj_size \<Rightarrow> Some (Inr (obj_size, used + obj_size, h2))))
             else
               (case HeapSize h1 current of
                  Inl e \<Rightarrow> Some (Inl e)
                | Inr sz \<Rightarrow>
                    (case extend_free_block end (current + sz) h1 of
                       None \<Rightarrow> None
                     | Some (Inl e) \<Rightarrow> Some (Inl e)
                     | Some (Inr (free_end, h2)) \<Rightarrow>
                         (let obj_size = free_end - current in
                          case (if is_executable then fill_break P (current + obj_size) current h2
                                else if DEBUG P then Some (Memset h2 current (kZapByte P) obj_size)
                                else Some h2) of
                            None \<Rightarrow> None
                          | Some h3 \<Rightarrow>
                              Some (Inr (obj_size, used,
                                if current \<noteq> start \<or> free_end \<noteq> end then
                                  (if locked then FreeLocked h3 freelist current obj_size
                                   else Free h3 freelist current obj_size)
                                else h3)))))))"

text \<open>The outer loop, \<^verbatim>\<open>while (current < end)\<close>. It returns the final scan position.\<close>

partial_function (option) sweep_loop ::
  "platform \<Rightarrow> uword \<Rightarrow> HeapPage \<Rightarrow> uword \<Rightarrow> bool \<Rightarrow> uword \<Rightarrow> uword \<Rightarrow> heap
     \<Rightarrow> (fatal + uword \<times> uword \<times> heap) option" where
  "sweep_loop P page pg freelist locked current used h =
     (if current < object_end pg then
        (case sweep_body P page pg freelist locked current used h of
           None \<Rightarrow> None
         | Some (Inl e) \<Rightarrow> Some (Inl e)
         | Some (Inr (obj_size, used1, h1)) \<Rightarrow>
             sweep_loop P page pg freelist locked (current + obj_size) used1 h1)
      else Some (Inr (current, used, h)))"

text \<open>
  \<^verbatim>\<open>SweepPage\<close> itself. The page is passed by pointer (\<open>page\<close>) and by content (\<open>pg\<close>);
  the result is the \<open>in use\<close> flag, the page after \<^verbatim>\<open>set_used_in_bytes\<close>, and the heap.
\<close>

definition SweepPage ::
  "platform \<Rightarrow> uword \<Rightarrow> HeapPage \<Rightarrow> uword \<Rightarrow> bool \<Rightarrow> heap
     \<Rightarrow> (fatal + bool \<times> HeapPage \<times> heap) option" where
  "SweepPage P page pg freelist locked h =
     (if is_image_page pg then Some (Inl AssertionFailed)
      else
        (case sweep_loop P page pg freelist locked (object_start pg) 0 h of
           None \<Rightarrow> None
         | Some (Inl e) \<Rightarrow> Some (Inl e)
         | Some (Inr (current, used, h1)) \<Rightarrow>
             if current \<noteq> object_end pg then Some (Inl AssertionFailed)
             else Some (Inr (used \<noteq> 0, pg\<lparr>used_in_bytes := used\<rparr>, h1))))"

subsection \<open>\<^verbatim>\<open>GCSweeper::SweepLargePage\<close>\<close>

text \<open>
  The loop of lines 96 to 102, compiled in debug builds only: every trailing filler is
  asserted to be unmarked and zapped.
\<close>

partial_function (option) verify_fillers ::
  "platform \<Rightarrow> uword \<Rightarrow> uword \<Rightarrow> heap \<Rightarrow> (fatal + heap) option" where
  "verify_fillers P end current h =
     (if current < end then
        (case IsMarked h current of
           Inl e \<Rightarrow> Some (Inl e)
         | Inr (marked, h1) \<Rightarrow>
             if marked then Some (Inl AssertionFailed)
             else (case HeapSize h1 current of
                     Inl e \<Rightarrow> Some (Inl e)
                   | Inr obj_size \<Rightarrow>
                       verify_fillers P end (current + obj_size)
                         (Memset h1 current (kZapByte P) obj_size)))
      else Some (Inr h))"

text \<open>
  Lines 84 to 90: the primary object. \<open>>>\<close> on an \<^verbatim>\<open>intptr_t\<close> is the arithmetic shift.
\<close>

definition sweep_primary :: "heap \<Rightarrow> uword \<Rightarrow> fatal + uword \<times> heap" where
  "sweep_primary h a =
     (case IsMarked h a of
        Inl e \<Rightarrow> Inl e
      | Inr (marked, h1) \<Rightarrow>
          if marked then
            (case ClearMarkBit h1 a of
               Inl e \<Rightarrow> Inl e
             | Inr h2 \<Rightarrow>
                 (case HeapSize h2 a of
                    Inl e \<Rightarrow> Inl e
                  | Inr sz \<Rightarrow> Inr (signed_drop_bit kWordSizeLog2 sz, h2)))
          else Inr (0, h1))"

definition SweepLargePage ::
  "platform \<Rightarrow> uword \<Rightarrow> HeapPage \<Rightarrow> heap \<Rightarrow> (fatal + uword \<times> heap) option" where
  "SweepLargePage P page pg h =
     (if is_image_page pg then Some (Inl AssertionFailed)
      else if HeapPage_Of P (object_start pg) \<noteq> page then Some (Inl AssertionFailed)
      else
        (case sweep_primary h (object_start pg) of
           Inl e \<Rightarrow> Some (Inl e)
         | Inr (words_to_end, h1) \<Rightarrow>
             if DEBUG P then
               (case HeapSize h1 (object_start pg) of
                  Inl e \<Rightarrow> Some (Inl e)
                | Inr sz \<Rightarrow>
                    (case verify_fillers P (object_end pg) (object_start pg + sz) h1 of
                       None \<Rightarrow> None
                     | Some (Inl e) \<Rightarrow> Some (Inl e)
                     | Some (Inr h2) \<Rightarrow> Some (Inr (words_to_end, h2))))
             else Some (Inr (words_to_end, h1))))"

subsection \<open>\<^verbatim>\<open>ConcurrentSweeperTask\<close>\<close>

text \<open>
  The task runs on one worker thread; the model is that thread's sequence of steps. The
  state holds the object memory, the \<^verbatim>\<open>HeapPage\<close> structures by pointer (\<open>0\<close> is
  \<^verbatim>\<open>NULL\<close>), the two fields of the old space that the task writes, and the calls that
  the task makes on the monitor, on the old space and on the sweeper, in program order.
\<close>

datatype cevent =
    MonitorEnter
  | MonitorExit
  | EvNotify
  | EvNotifyAll
  | EvSetTasks uword
  | EvSetPhase Phase
  | EvEnterIsolateAsHelper
  | EvExitIsolateAsHelper
  | EvSweepLargePage uword
  | EvSweepPage uword
  | EvFreeLargePage uword uword
  | EvTruncateLargePage uword uword
  | EvFreePage uword uword

record vm =
  hp :: heap
  pages :: "uword \<Rightarrow> HeapPage option"
  tasks :: uword
  phase :: Phase
  events :: "cevent list"

record task =
  task_isolate :: uword
  old_space :: uword
  first :: uword
  last :: uword
  large_first :: uword
  large_last :: uword
  task_freelist :: uword

text \<open>
  What the thread system answers (not in this file): the result of
  \<^verbatim>\<open>Thread::EnterIsolateAsHelper\<close>, \<^verbatim>\<open>thread->BypassSafepoints()\<close>, and the result of
  \<^verbatim>\<open>ThreadPool::Run\<close>.
\<close>

record threads =
  EnterIsolateAsHelper :: bool
  BypassSafepoints :: bool
  thread_pool_Run :: bool

definition emit :: "cevent \<Rightarrow> vm \<Rightarrow> vm" where
  "emit ev s = s\<lparr>events := events s @ [ev]\<rparr>"

definition set_tasks :: "uword \<Rightarrow> vm \<Rightarrow> vm" where
  "set_tasks n s = emit (EvSetTasks n) (s\<lparr>tasks := n\<rparr>)"

definition set_phase :: "Phase \<Rightarrow> vm \<Rightarrow> vm" where
  "set_phase p s = emit (EvSetPhase p) (s\<lparr>phase := p\<rparr>)"

text \<open>
  Modelled from the spec: the page-list primitives of the old space (\<^verbatim>\<open>PageSpace\<close>, not
  in this file): \<^verbatim>\<open>FreePage\<close>, \<^verbatim>\<open>FreeLargePage\<close> and \<^verbatim>\<open>TruncateLargePage\<close>. The spec
  calls them page-list mutation primitives; the model records each call and leaves the
  task count and the phase alone.
\<close>

definition FreeLargePage :: "uword \<Rightarrow> uword \<Rightarrow> vm \<Rightarrow> vm" where
  "FreeLargePage page prev_page s = emit (EvFreeLargePage page prev_page) s"

definition TruncateLargePage :: "uword \<Rightarrow> uword \<Rightarrow> vm \<Rightarrow> vm" where
  "TruncateLargePage page new_size s = emit (EvTruncateLargePage page new_size) s"

definition FreePage :: "uword \<Rightarrow> uword \<Rightarrow> vm \<Rightarrow> vm" where
  "FreePage page prev_page s = emit (EvFreePage page prev_page) s"

text \<open>The constructor, lines 109 to 131.\<close>

definition ConcurrentSweeperTask ::
  "uword \<Rightarrow> uword \<Rightarrow> uword \<Rightarrow> uword \<Rightarrow> uword \<Rightarrow> uword \<Rightarrow> uword \<Rightarrow> vm \<Rightarrow> fatal + task \<times> vm" where
  "ConcurrentSweeperTask isolate old_space0 first0 last0 large_first0 large_last0 freelist s =
     (if isolate = 0 \<or> first0 = 0 \<or> old_space0 = 0 \<or> last0 = 0 \<or> freelist = 0
      then Inl AssertionFailed
      else Inr (\<lparr>task_isolate = isolate, old_space = old_space0, first = first0, last = last0,
                 large_first = large_first0, large_last = large_last0, task_freelist = freelist\<rparr>,
                emit MonitorExit
                  (set_phase kSweeping
                    (set_tasks (tasks s + 1)
                      (emit MonitorEnter s)))))"

text \<open>The first loop of \<^verbatim>\<open>Run\<close>, lines 143 to 163, over the large pages.\<close>

partial_function (option) sweep_large_pages ::
  "platform \<Rightarrow> task \<Rightarrow> uword \<Rightarrow> uword \<Rightarrow> vm \<Rightarrow> (fatal + vm) option" where
  "sweep_large_pages P t page prev_page s =
     (if page \<noteq> 0 then
        (case pages s page of
           None \<Rightarrow> Some (Inl NullPointer)
         | Some pg \<Rightarrow>
             (let next_page = (if page = large_last t then 0 else next_page pg) in
              if page_type pg \<noteq> kData then Some (Inl AssertionFailed)
              else
                (case SweepLargePage P page pg (hp s) of
                   None \<Rightarrow> None
                 | Some (Inl e) \<Rightarrow> Some (Inl e)
                 | Some (Inr (words_to_end, h1)) \<Rightarrow>
                     if words_to_end = 0 then
                       sweep_large_pages P t next_page prev_page
                         (FreeLargePage page prev_page
                           ((emit (EvSweepLargePage page) s)\<lparr>hp := h1\<rparr>))
                     else
                       sweep_large_pages P t next_page page
                         (TruncateLargePage page (push_bit kWordSizeLog2 words_to_end)
                           ((emit (EvSweepLargePage page) s)\<lparr>hp := h1\<rparr>)))))
      else Some (Inr s))"

text \<open>The second loop, lines 165 to 190, over the ordinary pages.\<close>

partial_function (option) sweep_pages ::
  "platform \<Rightarrow> task \<Rightarrow> uword \<Rightarrow> uword \<Rightarrow> vm \<Rightarrow> (fatal + vm) option" where
  "sweep_pages P t page prev_page s =
     (if page \<noteq> 0 then
        (case pages s page of
           None \<Rightarrow> Some (Inl NullPointer)
         | Some pg \<Rightarrow>
             (let next_page = (if page = last t then 0 else next_page pg) in
              if page_type pg \<noteq> kData then Some (Inl AssertionFailed)
              else
                (case SweepPage P page pg (task_freelist t) False (hp s) of
                   None \<Rightarrow> None
                 | Some (Inl e) \<Rightarrow> Some (Inl e)
                 | Some (Inr (page_in_use, pg1, h1)) \<Rightarrow>
                     (let s1 = (emit (EvSweepPage page) s)
                                 \<lparr>hp := h1, pages := (pages s)(page := Some pg1)\<rparr>
                      in sweep_pages P t next_page
                           (if page_in_use then page else prev_page)
                           (emit MonitorExit (emit EvNotify (emit MonitorEnter
                             (if page_in_use then s1 else FreePage page prev_page s1))))))))
      else Some (Inr s))"

text \<open>The end of \<^verbatim>\<open>Run\<close>, lines 193 to 201.\<close>

definition finish_task :: "vm \<Rightarrow> fatal + vm" where
  "finish_task s =
     (let s1 = emit EvExitIsolateAsHelper s;
          s2 = set_tasks (tasks s1 - 1) (emit MonitorEnter s1)
      in if phase s2 \<noteq> kSweeping then Inl AssertionFailed
         else Inr (emit MonitorExit (emit EvNotifyAll (set_phase kDone s2))))"

definition Run :: "platform \<Rightarrow> threads \<Rightarrow> task \<Rightarrow> vm \<Rightarrow> (fatal + vm) option" where
  "Run P T t s =
     (if \<not> EnterIsolateAsHelper T then Some (Inl AssertionFailed)
      else if \<not> BypassSafepoints T then Some (Inl AssertionFailed)
      else
        (case sweep_large_pages P t (large_first t) 0 (emit EvEnterIsolateAsHelper s) of
           None \<Rightarrow> None
         | Some (Inl e) \<Rightarrow> Some (Inl e)
         | Some (Inr s1) \<Rightarrow>
             (case sweep_pages P t (first t) 0 s1 of
                None \<Rightarrow> None
              | Some (Inl e) \<Rightarrow> Some (Inl e)
              | Some (Inr s2) \<Rightarrow> Some (finish_task s2))))"


subsection \<open>Pages tiled by objects\<close>

text \<open>
  The object area \<open>[a, e)\<close> of the page \<open>page\<close> is exactly tiled by the objects \<open>objs\<close>,
  each given by its mark bit and its size: the header of the first object is at \<open>a\<close>,
  the header of each next object is where the one before ends, and the last object ends
  at \<open>e\<close>. A size is positive, as the spec says of \<^verbatim>\<open>heapSize\<close>, and each header lies on
  the page.
\<close>

fun tiled :: "platform \<Rightarrow> uword \<Rightarrow> (uword \<Rightarrow> cell) \<Rightarrow> uword \<Rightarrow> (bool \<times> uword) list \<Rightarrow> uword \<Rightarrow> bool" where
  "tiled P page m a [] e = (a = e)"
| "tiled P page m a ((marked, sz) # objs) e =
     (a < e \<and> m a = Tags marked sz \<and> HeapPage_Of P a = page \<and> 0 < sz \<and> sz \<le> e - a \<and>
      tiled P page m (a + sz) objs e)"

text \<open>Every size is a multiple of the word size.\<close>

definition word_aligned :: "(bool \<times> uword) list \<Rightarrow> bool" where
  "word_aligned objs = list_all (\<lambda>(marked, sz). unat sz mod kWordSize = 0) objs"

text \<open>
  The objects of a page in the order of the scan, grouped as the outer loop of
  \<^verbatim>\<open>SweepPage\<close> meets them: a marked object, or a maximal run of adjacent unmarked
  objects (the sizes of its objects).
\<close>

datatype seg = Live uword | Garbage "uword list"

fun segments :: "(bool \<times> uword) list \<Rightarrow> seg list" where
  "segments [] = []"
| "segments ((marked, sz) # objs) =
     (if marked then Live sz # segments objs
      else (case segments objs of
              Garbage szs # segs \<Rightarrow> Garbage (sz # szs) # segs
            | segs \<Rightarrow> Garbage [sz] # segs))"

fun seg_objs :: "seg \<Rightarrow> (bool \<times> uword) list" where
  "seg_objs (Live sz) = [(True, sz)]"
| "seg_objs (Garbage szs) = map (Pair False) szs"

text \<open>No run is empty and no run is followed by another run.\<close>

fun maximal :: "seg list \<Rightarrow> bool" where
  "maximal [] = True"
| "maximal (Live sz # segs) = maximal segs"
| "maximal (Garbage szs # segs) =
     (szs \<noteq> [] \<and> (case segs of Garbage szs' # segs' \<Rightarrow> False | _ \<Rightarrow> True) \<and> maximal segs)"

text \<open>The addresses of adjacent objects of the sizes \<open>szs\<close>, the first at \<open>a\<close>.\<close>

fun obj_addrs :: "uword \<Rightarrow> uword list \<Rightarrow> uword list" where
  "obj_addrs a [] = []"
| "obj_addrs a (sz # szs) = a # obj_addrs (a + sz) szs"

text \<open>
  What the sweep of a tiled page comes to, by recursion on its segments: \<open>swept\<close> is
  the heap after the scan. \<open>fill_result\<close> is \<open>k\<close> rounds of the filler loop, \<open>poison\<close> the
  overwriting of a run of \<open>n\<close> bytes at \<open>a\<close>, \<open>publish\<close> its hand-over to the sink, and
  \<open>run_reads\<close> the reads of mark bits while a run is found.
\<close>

primrec fill_result :: "platform \<Rightarrow> nat \<Rightarrow> uword \<Rightarrow> heap \<Rightarrow> heap" where
  "fill_result P 0 c h = h"
| "fill_result P (Suc k) c h =
     fill_result P k (c + of_nat kWordSize) (StoreWord h c (GetBreakInstructionFiller P))"

definition poison :: "platform \<Rightarrow> HeapPage \<Rightarrow> uword \<Rightarrow> uword \<Rightarrow> heap \<Rightarrow> heap" where
  "poison P pg a n h =
     (if page_type pg = kExecutable then fill_result P (unat n div kWordSize) a h
      else if DEBUG P then Memset h a (kZapByte P) n
      else h)"

definition publish :: "HeapPage \<Rightarrow> uword \<Rightarrow> bool \<Rightarrow> uword \<Rightarrow> uword \<Rightarrow> heap \<Rightarrow> heap" where
  "publish pg freelist locked a n h =
     (if a \<noteq> object_start pg \<or> a + n \<noteq> object_end pg then
        (if locked then FreeLocked h freelist a n else Free h freelist a n)
      else h)"

definition run_reads :: "HeapPage \<Rightarrow> uword \<Rightarrow> uword list \<Rightarrow> event list" where
  "run_reads pg a szs =
     map EvIsMarked (obj_addrs a szs) @
     (if a + sum_list szs < object_end pg then [EvIsMarked (a + sum_list szs)] else [])"

fun swept :: "platform \<Rightarrow> HeapPage \<Rightarrow> uword \<Rightarrow> bool \<Rightarrow> uword \<Rightarrow> seg list \<Rightarrow> heap \<Rightarrow> heap" where
  "swept P pg freelist locked a [] h = h"
| "swept P pg freelist locked a (Live sz # segs) h =
     swept P pg freelist locked (a + sz) segs
       (h\<lparr>mem := (mem h)(a := Tags False sz),
          trace := trace h @ [EvIsMarked a, EvClearMarkBit a]\<rparr>)"
| "swept P pg freelist locked a (Garbage szs # segs) h =
     swept P pg freelist locked (a + sum_list szs) segs
       (publish pg freelist locked a (sum_list szs)
          (poison P pg a (sum_list szs) (h\<lparr>trace := trace h @ run_reads pg a szs\<rparr>)))"

text \<open>The sum of the sizes of the marked objects, in the arithmetic of \<^verbatim>\<open>intptr_t\<close>.\<close>

fun live_total :: "seg list \<Rightarrow> uword" where
  "live_total [] = 0"
| "live_total (Live sz # segs) = sz + live_total segs"
| "live_total (Garbage szs # segs) = live_total segs"

definition live_bytes :: "(bool \<times> uword) list \<Rightarrow> uword" where
  "live_bytes objs = sum_list (map snd (filter fst objs))"

text \<open>
  The maximal runs of adjacent unmarked objects of a page whose segments start at \<open>a\<close>:
  the address of the first object of each run and the sum of the sizes of its objects.
\<close>

fun garbage_runs :: "uword \<Rightarrow> seg list \<Rightarrow> (uword \<times> uword) list" where
  "garbage_runs a [] = []"
| "garbage_runs a (Live sz # segs) = garbage_runs (a + sz) segs"
| "garbage_runs a (Garbage szs # segs) =
     (a, sum_list szs) # garbage_runs (a + sum_list szs) segs"

text \<open>The marked objects: address and size.\<close>

fun live_objects :: "uword \<Rightarrow> seg list \<Rightarrow> (uword \<times> uword) list" where
  "live_objects a [] = []"
| "live_objects a (Live sz # segs) = (a, sz) # live_objects (a + sz) segs"
| "live_objects a (Garbage szs # segs) = live_objects (a + sum_list szs) segs"

text \<open>The calls of the free-list sink among the events, and the call for a run.\<close>

definition is_sink_call :: "event \<Rightarrow> bool" where
  "is_sink_call ev =
     (case ev of EvFree fl a n \<Rightarrow> True | EvFreeLocked fl a n \<Rightarrow> True | _ \<Rightarrow> False)"

definition sink_calls :: "event list \<Rightarrow> event list" where
  "sink_calls evs = filter is_sink_call evs"

definition sink_call :: "uword \<Rightarrow> bool \<Rightarrow> uword \<times> uword \<Rightarrow> event" where
  "sink_call freelist locked r =
     (if locked then EvFreeLocked freelist (fst r) (snd r) else EvFree freelist (fst r) (snd r))"

text \<open>The run \<open>r\<close>, an address and a length, is the whole object area of the page.\<close>

definition spans_object_area :: "HeapPage \<Rightarrow> uword \<times> uword \<Rightarrow> bool" where
  "spans_object_area pg r \<longleftrightarrow> fst r = object_start pg \<and> fst r + snd r = object_end pg"

text \<open>The events of overwriting a run and of handing it to the sink.\<close>

definition poison_events :: "platform \<Rightarrow> HeapPage \<Rightarrow> uword \<times> uword \<Rightarrow> event list" where
  "poison_events P pg r =
     (if page_type pg = kExecutable then
        map (\<lambda>i. EvStoreWord (fst r + of_nat (kWordSize * i)) (GetBreakInstructionFiller P))
          [0..<unat (snd r) div kWordSize]
      else if DEBUG P then [EvMemset (fst r) (kZapByte P) (snd r)]
      else [])"

definition publish_events :: "HeapPage \<Rightarrow> uword \<Rightarrow> bool \<Rightarrow> uword \<times> uword \<Rightarrow> event list" where
  "publish_events pg freelist locked r =
     (if spans_object_area pg r then [] else [sink_call freelist locked r])"

fun sweep_events :: "platform \<Rightarrow> HeapPage \<Rightarrow> uword \<Rightarrow> bool \<Rightarrow> uword \<Rightarrow> seg list \<Rightarrow> event list" where
  "sweep_events P pg freelist locked a [] = []"
| "sweep_events P pg freelist locked a (Live sz # segs) =
     [EvIsMarked a, EvClearMarkBit a] @ sweep_events P pg freelist locked (a + sz) segs"
| "sweep_events P pg freelist locked a (Garbage szs # segs) =
     run_reads pg a szs @ poison_events P pg (a, sum_list szs) @
     publish_events pg freelist locked (a, sum_list szs) @
     sweep_events P pg freelist locked (a + sum_list szs) segs"

text \<open>The addresses of the objects that tile a page from \<open>a\<close>.\<close>

fun object_addrs :: "uword \<Rightarrow> (bool \<times> uword) list \<Rightarrow> uword list" where
  "object_addrs a [] = []"
| "object_addrs a ((marked, sz) # objs) = a # object_addrs (a + sz) objs"

text \<open>Whether the cell is a header that reports itself marked.\<close>

fun cell_marked :: "cell \<Rightarrow> bool" where
  "cell_marked (Tags marked sz) = marked"
| "cell_marked (Raw b) = False"

text \<open>The bytes of the word at address \<open>c\<close>.\<close>

definition load_word :: "(uword \<Rightarrow> cell) \<Rightarrow> uword \<Rightarrow> cell list" where
  "load_word m c = map (\<lambda>j. m (c + of_nat j)) [0..<kWordSize]"

text \<open>How often the mark bit of the object at \<open>a\<close> is read.\<close>

definition mark_reads :: "uword \<Rightarrow> event list \<Rightarrow> nat" where
  "mark_reads a evs = length (filter (\<lambda>ev. ev = EvIsMarked a) evs)"

text \<open>The cell at offset \<open>i\<close> of an overwritten run, where \<open>c\<close> was before.\<close>

definition poisoned_cell :: "platform \<Rightarrow> HeapPage \<Rightarrow> cell \<Rightarrow> nat \<Rightarrow> cell" where
  "poisoned_cell P pg c i =
     (if page_type pg = kExecutable then
        Raw (uword_bytes kWordSize (GetBreakInstructionFiller P) ! (i mod kWordSize))
      else if DEBUG P then Raw (kZapByte P)
      else c)"

text \<open>
  The trailing fillers of a large page: unmarked headers of positive size, one after the
  other from \<open>a\<close> until \<open>e\<close> is reached or passed, none wrapping around the address space.
\<close>

fun unmarked_fillers :: "(uword \<Rightarrow> cell) \<Rightarrow> uword \<Rightarrow> uword list \<Rightarrow> uword \<Rightarrow> bool" where
  "unmarked_fillers m a [] e = (e \<le> a)"
| "unmarked_fillers m a (sz # szs) e =
     (a < e \<and> m a = Tags False sz \<and> 0 < sz \<and> a \<le> a + sz \<and>
      unmarked_fillers m (a + sz) szs e)"

subsection \<open>Reading the events of a task\<close>

text \<open>The events that write the task count or the phase.\<close>

fun writes_count_or_phase :: "cevent \<Rightarrow> bool" where
  "writes_count_or_phase (EvSetTasks n) = True"
| "writes_count_or_phase (EvSetPhase p) = True"
| "writes_count_or_phase ev = False"

text \<open>The sweeps of pages and the notifications, which are the events of claim C8.\<close>

fun is_page_sweep :: "cevent \<Rightarrow> bool" where
  "is_page_sweep (EvSweepLargePage page) = True"
| "is_page_sweep (EvSweepPage page) = True"
| "is_page_sweep ev = False"

fun is_notification :: "cevent \<Rightarrow> bool" where
  "is_notification EvNotify = True"
| "is_notification EvNotifyAll = True"
| "is_notification ev = False"

definition page_level :: "cevent list \<Rightarrow> cevent list" where
  "page_level evs = filter (\<lambda>ev. is_page_sweep ev \<or> is_notification ev) evs"



subsection \<open>The page lists of a task\<close>

text \<open>
  The trailing fillers of a large page tile \<open>[a, e)\<close> exactly: unmarked headers of
  positive size, one after the other from \<open>a\<close>, the last one ending at \<open>e\<close>.
\<close>

fun filler_tiled :: "(uword \<Rightarrow> cell) \<Rightarrow> uword \<Rightarrow> uword list \<Rightarrow> uword \<Rightarrow> bool" where
  "filler_tiled m a [] e = (a = e)"
| "filler_tiled m a (sz # szs) e =
     (a < e \<and> m a = Tags False sz \<and> 0 < sz \<and> sz \<le> e - a \<and> filler_tiled m (a + sz) szs e)"

text \<open>
  A large page that \<^verbatim>\<open>SweepLargePage\<close> accepts, with the mark bit and the size of its
  primary object and the sizes of its trailing fillers: a data page, not an image page,
  whose primary object lies in the object area; in a debug build, where the fillers are
  read, they tile the rest of the area.
\<close>

fun large_page_ok ::
  "platform \<Rightarrow> uword \<Rightarrow> HeapPage \<Rightarrow> (uword \<Rightarrow> cell) \<Rightarrow> bool \<times> uword \<times> uword list \<Rightarrow> bool" where
  "large_page_ok P page pg m (marked, sz, fillers) =
     (page_type pg = kData \<and> \<not> is_image_page pg \<and> HeapPage_Of P (object_start pg) = page \<and>
      object_start pg < object_end pg \<and> m (object_start pg) = Tags marked sz \<and> 0 < sz \<and>
      sz \<le> object_end pg - object_start pg \<and>
      (DEBUG P \<longrightarrow> filler_tiled m (object_start pg + sz) fillers (object_end pg)))"

text \<open>
  The large pages of a task, each a page pointer with the description of the page, and
  the ordinary pages, each a page pointer with the objects that tile its object area:
  every pointer points to a page, a large page is as above, and an ordinary page is a
  data page, not an image page, that is tiled by its objects.
\<close>

fun large_pages_ok ::
  "platform \<Rightarrow> (uword \<Rightarrow> HeapPage option) \<Rightarrow> (uword \<Rightarrow> cell)
     \<Rightarrow> (uword \<times> bool \<times> uword \<times> uword list) list \<Rightarrow> bool" where
  "large_pages_ok P pgs m [] = True"
| "large_pages_ok P pgs m ((page, d) # larges) =
     (case pgs page of None \<Rightarrow> False
      | Some pg \<Rightarrow> large_page_ok P page pg m d \<and> large_pages_ok P pgs m larges)"

fun ordinary_pages_ok ::
  "platform \<Rightarrow> (uword \<Rightarrow> HeapPage option) \<Rightarrow> (uword \<Rightarrow> cell)
     \<Rightarrow> (uword \<times> (bool \<times> uword) list) list \<Rightarrow> bool" where
  "ordinary_pages_ok P pgs m [] = True"
| "ordinary_pages_ok P pgs m ((page, objs) # ords) =
     (case pgs page of None \<Rightarrow> False
      | Some pg \<Rightarrow>
          page_type pg = kData \<and> \<not> is_image_page pg \<and>
          tiled P page m (object_start pg) objs (object_end pg) \<and>
          ordinary_pages_ok P pgs m ords)"

text \<open>
  The object areas of the pages of a list do not overlap: \<open>area_apart\<close> compares one
  page with the page behind a pointer, \<open>pages_apart\<close> every page with the later ones.
\<close>

definition area_apart :: "(uword \<Rightarrow> HeapPage option) \<Rightarrow> HeapPage \<Rightarrow> uword \<Rightarrow> bool" where
  "area_apart pgs pg q =
     (case pgs q of None \<Rightarrow> False
      | Some pg' \<Rightarrow> object_end pg \<le> object_start pg' \<or> object_end pg' \<le> object_start pg)"

fun pages_apart :: "(uword \<Rightarrow> HeapPage option) \<Rightarrow> uword list \<Rightarrow> bool" where
  "pages_apart pgs [] = True"
| "pages_apart pgs (p # ps) =
     (case pgs p of None \<Rightarrow> False
      | Some pg \<Rightarrow> list_all (area_apart pgs pg) ps \<and> pages_apart pgs ps)"

text \<open>
  The pages that a loop of \<^verbatim>\<open>Run\<close> visits, in order: it starts at \<open>page\<close>, follows
  \<^verbatim>\<open>next()\<close>, and stops after \<open>last_page\<close> or at \<^verbatim>\<open>NULL\<close>.
\<close>

fun page_chain :: "(uword \<Rightarrow> HeapPage option) \<Rightarrow> uword \<Rightarrow> uword \<Rightarrow> uword list \<Rightarrow> bool" where
  "page_chain pgs last_page page [] = (page = 0)"
| "page_chain pgs last_page page (p # ps) =
     (page = p \<and> p \<noteq> 0 \<and>
      (case pgs p of None \<Rightarrow> False
       | Some pg \<Rightarrow> page_chain pgs last_page (if p = last_page then 0 else next_page pg) ps))"

text \<open>
  The two page lists of the task \<open>t\<close> in the state \<open>s\<close> are well formed: the loops of
  \<^verbatim>\<open>Run\<close> visit the large pages \<open>larges\<close> and the ordinary pages \<open>ords\<close>, which are as
  described above on the memory of \<open>s\<close> and whose object areas do not overlap.
\<close>

definition sweepable ::
  "platform \<Rightarrow> task \<Rightarrow> vm \<Rightarrow> (uword \<times> bool \<times> uword \<times> uword list) list
     \<Rightarrow> (uword \<times> (bool \<times> uword) list) list \<Rightarrow> bool" where
  "sweepable P t s larges ords \<longleftrightarrow>
     page_chain (pages s) (large_last t) (large_first t) (map fst larges) \<and>
     page_chain (pages s) (last t) (first t) (map fst ords) \<and>
     large_pages_ok P (pages s) (mem (hp s)) larges \<and>
     ordinary_pages_ok P (pages s) (mem (hp s)) ords \<and>
     pages_apart (pages s) (map fst larges @ map fst ords)"

subsection \<open>Concrete heaps\<close>

text \<open>
  A platform, without and with \<^verbatim>\<open>DEBUG\<close>, where \<^verbatim>\<open>HeapPage::Of\<close> clears the low 18 bits
  of an address, and small pages and heaps on which the theorems are run.
\<close>

definition P0 :: platform where
  "P0 = \<lparr>GetBreakInstructionFiller = 0xCCCCCCCCCCCCCCCC, kZapByte = 0xEA, DEBUG = False,
          HeapPage_Of = (\<lambda>a. push_bit 18 (drop_bit 18 a))\<rparr>"

definition pg0 :: HeapPage where
  "pg0 = \<lparr>page_type = kExecutable, is_image_page = False, object_start = 0x40020,
           object_end = 0x40050, used_in_bytes = 0, next_page = 0\<rparr>"

definition h0 :: heap where
  "h0 = \<lparr>mem = (\<lambda>x. Raw 0)(0x40020 := Tags True 16, 0x40030 := Tags False 16, 0x40040 := Tags True 16),
          trace = []\<rparr>"

definition pg1 :: HeapPage where
  "pg1 = \<lparr>page_type = kData, is_image_page = False, object_start = 0x40020,
           object_end = 0x40070, used_in_bytes = 0, next_page = 0\<rparr>"

definition h1 :: heap where
  "h1 = \<lparr>mem = (\<lambda>x. Raw 0)(0x40020 := Tags True 16, 0x40030 := Tags False 16,
                 0x40040 := Tags False 32, 0x40060 := Tags True 16),
          trace = []\<rparr>"

definition pg2 :: HeapPage where
  "pg2 = \<lparr>page_type = kData, is_image_page = False, object_start = 0x40020,
           object_end = 0x40040, used_in_bytes = 0, next_page = 0\<rparr>"

definition h2 :: heap where
  "h2 = \<lparr>mem = (\<lambda>x. Raw 0)(0x40020 := Tags False 16, 0x40030 := Tags False 16), trace = []\<rparr>"

definition Pd :: platform where
  "Pd = P0\<lparr>DEBUG := True\<rparr>"

definition h3 :: heap where
  "h3 = \<lparr>mem = (\<lambda>x. Raw 0)(0x40020 := Tags False 16, 0x40030 := Tags True 16), trace = []\<rparr>"

definition pgL :: HeapPage where
  "pgL = \<lparr>page_type = kData, is_image_page = False, object_start = 0x80020,
           object_end = 0x80060, used_in_bytes = 0, next_page = 0\<rparr>"

definition hL :: heap where
  "hL = \<lparr>mem = (\<lambda>x. Raw 0)(0x80020 := Tags True 48, 0x80050 := Tags False 16), trace = []\<rparr>"

definition hL0 :: heap where
  "hL0 = \<lparr>mem = (\<lambda>x. Raw 0)(0x80020 := Tags False 48, 0x80050 := Tags False 16), trace = []\<rparr>"



definition T0 :: threads where
  "T0 = \<lparr>EnterIsolateAsHelper = True, BypassSafepoints = True, thread_pool_Run = True\<rparr>"

definition t0 :: task where
  "t0 = \<lparr>task_isolate = 1, old_space = 2, first = 0x40000, last = 0x40000,
          large_first = 0x80000, large_last = 0x80000, task_freelist = 7\<rparr>"

text \<open>
  A task over two large pages and two ordinary pages, linked by \<^verbatim>\<open>next()\<close>. The first
  large page holds a marked object and a filler, the second an unmarked object; the
  first ordinary page holds marked objects, the second only unmarked ones. \<^verbatim>\<open>next()\<close>
  of each last page points past the list.
\<close>

definition pgL1 :: HeapPage where
  "pgL1 = \<lparr>page_type = kData, is_image_page = False, object_start = 0x80020,
            object_end = 0x80060, used_in_bytes = 0, next_page = 0x100000\<rparr>"

definition pgL2 :: HeapPage where
  "pgL2 = \<lparr>page_type = kData, is_image_page = False, object_start = 0x100020,
            object_end = 0x100040, used_in_bytes = 0, next_page = 0x180000\<rparr>"

definition pgO1 :: HeapPage where
  "pgO1 = \<lparr>page_type = kData, is_image_page = False, object_start = 0x40020,
            object_end = 0x40070, used_in_bytes = 0, next_page = 0xC0000\<rparr>"

definition pgO2 :: HeapPage where
  "pgO2 = \<lparr>page_type = kData, is_image_page = False, object_start = 0xC0020,
            object_end = 0xC0040, used_in_bytes = 0, next_page = 0x140000\<rparr>"

definition hR :: heap where
  "hR = \<lparr>mem = (\<lambda>x. Raw 0)(0x80020 := Tags True 48, 0x80050 := Tags False 16,
                 0x100020 := Tags False 32,
                 0x40020 := Tags True 16, 0x40030 := Tags False 16,
                 0x40040 := Tags False 32, 0x40060 := Tags True 16,
                 0xC0020 := Tags False 16, 0xC0030 := Tags False 16),
          trace = []\<rparr>"

definition vmR :: vm where
  "vmR = \<lparr>hp = hR,
           pages = (\<lambda>p. None)(0x80000 := Some pgL1, 0x100000 := Some pgL2,
                                0x40000 := Some pgO1, 0xC0000 := Some pgO2),
           tasks = 0, phase = kMarking, events = []\<rparr>"

definition tR :: task where
  "tR = \<lparr>task_isolate = 1, old_space = 2, first = 0x40000, last = 0xC0000,
          large_first = 0x80000, large_last = 0x100000, task_freelist = 7\<rparr>"

definition largesR :: "(uword \<times> bool \<times> uword \<times> uword list) list" where
  "largesR = [(0x80000, True, 48, [16]), (0x100000, False, 32, [])]"

definition ordsR :: "(uword \<times> (bool \<times> uword) list) list" where
  "ordsR = [(0x40000, [(True, 16), (False, 16), (False, 32), (True, 16)]),
            (0xC0000, [(False, 16), (False, 16)])]"

section \<open>Properties\<close>

lemma tiled_le: "tiled P page m a objs e \<Longrightarrow> a \<le> e"
  by (cases objs) auto

lemma step_no_wrap: "(a::uword) < e \<Longrightarrow> sz \<le> e - a \<Longrightarrow> unat (a + sz) = unat a + unat sz"
  by unat_arith

lemma write_bytes_outside:
  "unat a + length bs \<le> unat (e::uword) \<Longrightarrow> (x < a \<or> unat a + length bs \<le> unat x) \<Longrightarrow> write_bytes m a bs x = m x"
proof (induction bs arbitrary: m a)
  case Nil
  then show ?case by simp
next
  case (Cons b bs)
  have lt: "unat a < unat e" using Cons.prems(1) by simp
  then have a1: "unat (a + 1) = unat a + 1"
    by unat_arith
  have "write_bytes (m(a := Raw b)) (a + 1) bs x = (m(a := Raw b)) x"
    using Cons.prems a1 by (intro Cons.IH) (auto simp: word_less_nat_alt)
  moreover have "x \<noteq> a" using Cons.prems(2) by auto
  ultimately show ?case by simp
qed

lemma tiled_frame:
  "tiled P page m a objs e \<Longrightarrow> (\<And>x. a \<le> x \<Longrightarrow> x < e \<Longrightarrow> m' x = m x) \<Longrightarrow> tiled P page m' a objs e"
proof (induction objs arbitrary: a)
  case Nil
  then show ?case by simp
next
  case (Cons ob objs)
  obtain marked sz where ob: "ob = (marked, sz)" by (cases ob)
  from Cons.prems(1) ob have a: "a < e" "m a = Tags marked sz" "HeapPage_Of P a = page" "0 < sz" "sz \<le> e - a"
    and t: "tiled P page m (a + sz) objs e" by auto
  have le: "a \<le> a + sz" using a(1,5) by unat_arith
  have "tiled P page m' (a + sz) objs e"
    using t le by (intro Cons.IH) (auto intro: Cons.prems(2))
  moreover have "m' a = Tags marked sz" using Cons.prems(2) [of a] a by simp
  ultimately show ?case using a ob by simp
qed

lemma objs_of_segments: "concat (map seg_objs (segments objs)) = objs"
proof (induction objs)
  case Nil
  then show ?case by simp
next
  case (Cons ob objs)
  obtain marked sz where ob: "ob = (marked, sz)" by (cases ob)
  show ?case using Cons.IH ob
    by (cases "segments objs" rule: maximal.cases) auto
qed

lemma maximal_segments: "maximal (segments objs)"
proof (induction objs)
  case Nil
  then show ?case by simp
next
  case (Cons ob objs)
  obtain marked sz where ob: "ob = (marked, sz)" by (cases ob)
  show ?case using Cons.IH ob
    by (cases "segments objs" rule: maximal.cases) auto
qed

lemma heap_trace_id [simp]: "h\<lparr>trace := trace h\<rparr> = h"
  by simp

lemma extend_run:
  "tiled P page (mem h) fe (map (Pair False) szs @ rest) e \<Longrightarrow> (case rest of [] \<Rightarrow> True | ob # _ \<Rightarrow> fst ob) \<Longrightarrow>
   extend_free_block e fe h =
     Some (Inr (fe + sum_list szs,
       h\<lparr>trace := trace h @ map EvIsMarked (obj_addrs fe szs) @
            (if fe + sum_list szs < e then [EvIsMarked (fe + sum_list szs)] else [])\<rparr>)) \<and>
   tiled P page (mem h) (fe + sum_list szs) rest e"
proof (induction szs arbitrary: fe h)
  case Nil
  show ?case
  proof (cases rest)
    case Nil
    with Nil.prems show ?thesis by (subst extend_free_block.simps) simp
  next
    case (Cons ob rest')
    obtain marked sz where ob: "ob = (marked, sz)" by (cases ob)
    with Nil.prems Cons show ?thesis
      by (subst extend_free_block.simps) (simp add: IsMarked_def)
  qed
next
  case (Cons s szs)
  from Cons.prems(1) have a: "fe < e" "mem h fe = Tags False s" "0 < s" "s \<le> e - fe"
    and t: "tiled P page (mem h) (fe + s) (map (Pair False) szs @ rest) e" by auto
  let ?h1 = "h\<lparr>trace := trace h @ [EvIsMarked fe]\<rparr>"
  have "tiled P page (mem ?h1) (fe + s) (map (Pair False) szs @ rest) e" using t by simp
  from Cons.IH [OF this Cons.prems(2)]
  have ih: "extend_free_block e (fe + s) ?h1 =
     Some (Inr (fe + s + sum_list szs,
       ?h1\<lparr>trace := trace ?h1 @ map EvIsMarked (obj_addrs (fe + s) szs) @
            (if fe + s + sum_list szs < e then [EvIsMarked (fe + s + sum_list szs)] else [])\<rparr>))"
    and t': "tiled P page (mem h) (fe + s + sum_list szs) rest e" by simp_all
  have "extend_free_block e fe h = extend_free_block e (fe + s) ?h1"
    using a by (subst extend_free_block.simps) (simp add: IsMarked_def HeapSize_def)
  with ih t' show ?case by (simp add: add.assoc)
qed


lemma unat_lt64: "unat (x :: uword) < 18446744073709551616"
  using unsigned_less [of x] by simp

lemma unat_plus_nat: "unat (c :: uword) + n \<le> unat (e :: uword) \<Longrightarrow> unat (c + of_nat n) = unat c + n"
proof -
  assume le: "unat c + n \<le> unat e"
  then have n: "n < 2 ^ LENGTH(64)" using unat_lt64 [of e] by simp
  then have "unat (of_nat n :: uword) = n" by (simp add: unat_of_nat)
  moreover have "unat c + n < 2 ^ LENGTH(64)" using le unat_lt64 [of e] by simp
  ultimately show ?thesis using unat_add_lem [of c "of_nat n"] by simp
qed

lemma tiled_prefix_bounds:
  "tiled P page m a (xs @ rest) e \<Longrightarrow>
   unat a + sum_list (map (\<lambda>ob. unat (snd ob)) xs) \<le> unat e \<and>
   unat (sum_list (map snd xs)) = sum_list (map (\<lambda>ob. unat (snd ob)) xs) \<and>
   tiled P page m (a + sum_list (map snd xs)) rest e"
proof (induction xs arbitrary: a)
  case Nil
  then show ?case using tiled_le [of P page m a rest e] by (simp add: word_le_nat_alt)
next
  case (Cons ob xs)
  obtain marked sz where ob: "ob = (marked, sz)" by (cases ob)
  from Cons.prems ob have a: "a < e" "sz \<le> e - a"
    and t: "tiled P page m (a + sz) (xs @ rest) e" by auto
  have u: "unat (a + sz) = unat a + unat sz" using a by (rule step_no_wrap)
  from Cons.IH [OF t] u
  have b: "unat a + unat sz + sum_list (map (\<lambda>ob. unat (snd ob)) xs) \<le> unat e"
    and s: "unat (sum_list (map snd xs)) = sum_list (map (\<lambda>ob. unat (snd ob)) xs)"
    and t': "tiled P page m (a + sz + sum_list (map snd xs)) rest e" by simp_all
  have "unat (sz + sum_list (map snd xs)) = unat sz + unat (sum_list (map snd xs))"
    using b s unat_lt64 [of e] by (subst unat_add_lem [THEN iffD1]) auto
  with b s t' ob show ?case by (simp add: add.assoc)
qed

lemma fill_break_aligned:
  "unat c + kWordSize * k \<le> unat (e :: uword) \<Longrightarrow>
   fill_break P (c + of_nat (kWordSize * k)) c h = Some (fill_result P k c h)"
proof (induction k arbitrary: c h)
  case 0
  then show ?case by (subst fill_break.simps) simp
next
  case (Suc k)
  have u8: "unat (c + of_nat kWordSize) = unat c + kWordSize"
    using Suc.prems by (intro unat_plus_nat [where e = e]) simp
  have uk: "unat (c + of_nat (kWordSize * Suc k)) = unat c + kWordSize * Suc k"
    using Suc.prems by (intro unat_plus_nat [where e = e])
  have less: "c < c + of_nat (kWordSize * Suc k)"
    unfolding word_less_nat_alt uk by (simp add: kWordSize_def)
  have eq: "c + of_nat (kWordSize * Suc k) = (c + of_nat kWordSize) + of_nat (kWordSize * k)"
    by simp
  have "fill_break P (c + of_nat kWordSize + of_nat (kWordSize * k)) (c + of_nat kWordSize)
          (StoreWord h c (GetBreakInstructionFiller P))
        = Some (fill_result P k (c + of_nat kWordSize) (StoreWord h c (GetBreakInstructionFiller P)))"
    using Suc.prems u8 by (intro Suc.IH) simp
  then show ?case
    using less by (subst fill_break.simps) (simp only: eq if_True fill_result.simps flip: eq)
qed

lemma length_uword_bytes [simp]: "length (uword_bytes n v) = n"
  by (simp add: uword_bytes_def)

lemma fill_result_outside:
  "unat c + kWordSize * k \<le> unat (e :: uword) \<Longrightarrow> (x < c \<or> unat c + kWordSize * k \<le> unat x) \<Longrightarrow>
   mem (fill_result P k c h) x = mem h x"
proof (induction k arbitrary: c h)
  case 0
  then show ?case by simp
next
  case (Suc k)
  have u8: "unat (c + of_nat kWordSize) = unat c + kWordSize"
    using Suc.prems by (intro unat_plus_nat [where e = e]) simp
  have "mem (fill_result P k (c + of_nat kWordSize) (StoreWord h c (GetBreakInstructionFiller P))) x
        = mem (StoreWord h c (GetBreakInstructionFiller P)) x"
    using Suc.prems u8 by (intro Suc.IH) (auto simp: word_less_nat_alt)
  also have "\<dots> = mem h x"
    using Suc.prems unfolding StoreWord_def
    by (simp, intro write_bytes_outside [where e = e]) auto
  finally show ?case by simp
qed

lemma poison_outside:
  assumes "unat a + unat n \<le> unat (e :: uword)"
    and "page_type pg = kExecutable \<longrightarrow> unat n mod kWordSize = 0"
    and "x < a \<or> unat a + unat n \<le> unat x"
  shows "mem (poison P pg a n h) x = mem h x"
proof (cases "page_type pg = kExecutable")
  case True
  with assms(2) have "kWordSize * (unat n div kWordSize) = unat n" by auto
  with assms(1,3) True show ?thesis
    unfolding poison_def by (simp, intro fill_result_outside [where e = e]) auto
next
  case False
  with assms(1,3) show ?thesis
    unfolding poison_def Memset_def by (auto intro!: write_bytes_outside [where e = e])
qed


lemma sweep_body_live:
  assumes "tiled P page (mem h) a ((True, sz) # objs) (object_end pg)"
  shows "sweep_body P page pg freelist locked a used h =
           Some (Inr (sz, used + sz,
             h\<lparr>mem := (mem h)(a := Tags False sz),
               trace := trace h @ [EvIsMarked a, EvClearMarkBit a]\<rparr>))"
  using assms by (simp add: sweep_body_def IsMarked_def ClearMarkBit_def HeapSize_def)

lemma aligned_sum:
  "list_all (\<lambda>sz. unat sz mod kWordSize = 0) szs \<Longrightarrow> sum_list (map unat szs) mod kWordSize = 0"
  by (induction szs) (auto simp: kWordSize_def)

lemma sweep_body_garbage:
  assumes t: "tiled P page (mem h) a (map (Pair False) (s # szs) @ rest) (object_end pg)"
    and r: "case rest of [] \<Rightarrow> True | ob # _ \<Rightarrow> fst ob"
    and al: "page_type pg = kExecutable \<longrightarrow> list_all (\<lambda>sz. unat sz mod kWordSize = 0) (s # szs)"
  shows "sweep_body P page pg freelist locked a used h =
           Some (Inr (sum_list (s # szs), used,
             publish pg freelist locked a (sum_list (s # szs))
               (poison P pg a (sum_list (s # szs))
                 (h\<lparr>trace := trace h @ run_reads pg a (s # szs)\<rparr>))))"
proof -
  let ?e = "object_end pg"
  let ?n = "sum_list (s # szs)"
  let ?h1 = "h\<lparr>trace := trace h @ [EvIsMarked a]\<rparr>"
  let ?h2 = "h\<lparr>trace := trace h @ run_reads pg a (s # szs)\<rparr>"
  from t have a: "a < ?e" "mem h a = Tags False s" "HeapPage_Of P a = page"
    and t1: "tiled P page (mem ?h1) (a + s) (map (Pair False) szs @ rest) ?e" by auto
  from extend_run [OF t1 r]
  have ext: "extend_free_block ?e (a + s) ?h1 = Some (Inr (a + ?n, ?h2))"
    by (simp add: run_reads_def add.assoc)
  from tiled_prefix_bounds [OF t]
  have b: "unat a + sum_list (map unat (s # szs)) \<le> unat ?e"
    and u: "unat ?n = sum_list (map unat (s # szs))"
    by (simp_all add: comp_def)
  have fill: "fill_break P (a + ?n) a ?h2 = Some (fill_result P (unat ?n div kWordSize) a ?h2)"
    if "page_type pg = kExecutable"
  proof -
    from that al have "sum_list (map unat (s # szs)) mod kWordSize = 0"
      by (intro aligned_sum) simp
    with u have k: "kWordSize * (unat ?n div kWordSize) = unat ?n" by auto
    have "fill_break P (a + of_nat (kWordSize * (unat ?n div kWordSize))) a ?h2
            = Some (fill_result P (unat ?n div kWordSize) a ?h2)"
      using b u k by (intro fill_break_aligned [where e = ?e]) simp
    then show ?thesis unfolding k by simp
  qed
  show ?thesis
  proof (cases "page_type pg = kExecutable")
    case True
    with a ext fill [OF True] show ?thesis
      by (simp add: sweep_body_def IsMarked_def HeapSize_def publish_def poison_def Let_def)
  next
    case False
    with a ext show ?thesis
      by (simp add: sweep_body_def IsMarked_def HeapSize_def publish_def poison_def Let_def)
  qed
qed


lemma mem_publish [simp]: "mem (publish pg freelist locked a n h) = mem h"
  by (simp add: publish_def Free_def FreeLocked_def)

lemma word_aligned_append: "word_aligned (xs @ ys) \<longleftrightarrow> word_aligned xs \<and> word_aligned ys"
  by (simp add: word_aligned_def)

lemma word_aligned_Cons:
  "word_aligned ((marked, sz) # objs) \<longleftrightarrow> unat sz mod kWordSize = 0 \<and> word_aligned objs"
  by (simp add: word_aligned_def)

lemma word_aligned_run:
  "word_aligned (map (Pair False) szs) \<longleftrightarrow> list_all (\<lambda>sz. unat sz mod kWordSize = 0) szs"
  by (induction szs) (simp_all add: word_aligned_def)

lemma sweep_loop_swept:
  "tiled P page (mem h) a (concat (map seg_objs segs)) (object_end pg) \<Longrightarrow> maximal segs \<Longrightarrow>
   (page_type pg = kExecutable \<longrightarrow> word_aligned (concat (map seg_objs segs))) \<Longrightarrow>
   sweep_loop P page pg freelist locked a used h =
     Some (Inr (object_end pg, used + live_total segs, swept P pg freelist locked a segs h))"
proof (induction segs arbitrary: a used h)
  case Nil
  then show ?case by (subst sweep_loop.simps) simp
next
  case (Cons sg segs)
  let ?e = "object_end pg"
  let ?rest = "concat (map seg_objs segs)"
  show ?case
  proof (cases sg)
    case (Live sz)
    let ?h' = "h\<lparr>mem := (mem h)(a := Tags False sz),
                  trace := trace h @ [EvIsMarked a, EvClearMarkBit a]\<rparr>"
    from Cons.prems(1) Live have t: "tiled P page (mem h) a ((True, sz) # ?rest) ?e" by simp
    then have a: "a < ?e" "0 < sz" "sz \<le> ?e - a" and t1: "tiled P page (mem h) (a + sz) ?rest ?e"
      by auto
    have lt: "a < a + sz" using a by unat_arith
    have "tiled P page (mem ?h') (a + sz) ?rest ?e"
      using t1
    proof (rule tiled_frame)
      fix x assume "a + sz \<le> x"
      with lt have "x \<noteq> a" by auto
      then show "mem ?h' x = mem h x" by simp
    qed
    moreover have "maximal segs" using Cons.prems(2) Live by simp
    moreover have "page_type pg = kExecutable \<longrightarrow> word_aligned ?rest"
      using Cons.prems(3) Live by (simp add: word_aligned_def)
    ultimately have "sweep_loop P page pg freelist locked (a + sz) (used + sz) ?h' =
        Some (Inr (?e, used + sz + live_total segs, swept P pg freelist locked (a + sz) segs ?h'))"
      by (rule Cons.IH)
    with a(1) sweep_body_live [OF t] Live show ?thesis
      by (subst sweep_loop.simps) (simp add: add.assoc)
  next
    case (Garbage szs0)
    with Cons.prems(2) obtain s szs where szs0: "szs0 = s # szs" by (cases szs0) auto
    let ?n = "sum_list (s # szs)"
    let ?h' = "publish pg freelist locked a ?n
                 (poison P pg a ?n (h\<lparr>trace := trace h @ run_reads pg a (s # szs)\<rparr>))"
    from Cons.prems(1) Garbage szs0
    have t: "tiled P page (mem h) a (map (Pair False) (s # szs) @ ?rest) ?e" by simp
    have r: "case ?rest of [] \<Rightarrow> True | ob # _ \<Rightarrow> fst ob"
      using Cons.prems(2) Garbage by (cases segs rule: maximal.cases) auto
    have al: "page_type pg = kExecutable \<longrightarrow> list_all (\<lambda>sz. unat sz mod kWordSize = 0) (s # szs)"
      using Cons.prems(3) Garbage szs0
      by (simp add: word_aligned_Cons word_aligned_append word_aligned_run)
    from t have a: "a < ?e" by simp
    from tiled_prefix_bounds [OF t]
    have b: "unat a + unat ?n \<le> unat ?e"
      and u: "unat ?n = sum_list (map unat (s # szs))"
      and t1: "tiled P page (mem h) (a + ?n) ?rest ?e"
      by (simp_all add: comp_def)
    have aln: "page_type pg = kExecutable \<longrightarrow> unat ?n mod kWordSize = 0"
      using al u aligned_sum [of "s # szs"] by simp
    have un: "unat (a + ?n) = unat a + unat ?n"
      using b unat_lt64 [of ?e] by (subst unat_add_lem [THEN iffD1]) auto
    have "tiled P page (mem ?h') (a + ?n) ?rest ?e"
      using t1
    proof (rule tiled_frame)
      fix x assume "a + ?n \<le> x"
      then have "unat a + unat ?n \<le> unat x" using un by (simp add: word_le_nat_alt)
      then show "mem ?h' x = mem h x"
        using poison_outside [OF b aln, of x P "h\<lparr>trace := trace h @ run_reads pg a (s # szs)\<rparr>"]
        by simp
    qed
    moreover have "maximal segs" using Cons.prems(2) Garbage by simp
    moreover have "page_type pg = kExecutable \<longrightarrow> word_aligned ?rest"
      using Cons.prems(3) Garbage by (simp add: word_aligned_append)
    ultimately have "sweep_loop P page pg freelist locked (a + ?n) used ?h' =
        Some (Inr (?e, used + live_total segs, swept P pg freelist locked (a + ?n) segs ?h'))"
      by (rule Cons.IH)
    with a sweep_body_garbage [OF t r al, of freelist locked used] Garbage szs0 show ?thesis
      by (subst sweep_loop.simps) simp
  qed
qed


lemma live_total_segments: "live_total (segments objs) = live_bytes objs"
proof (induction objs)
  case Nil
  then show ?case by (simp add: live_bytes_def)
next
  case (Cons ob objs)
  obtain marked sz where ob: "ob = (marked, sz)" by (cases ob)
  show ?case using Cons.IH ob
    by (cases "segments objs" rule: maximal.cases) (auto simp: live_bytes_def)
qed

lemma tiled_live_bytes:
  "tiled P page m a objs e \<Longrightarrow>
   unat (live_bytes objs) = sum_list (map (\<lambda>ob. unat (snd ob)) (filter fst objs)) \<and>
   unat a + unat (live_bytes objs) \<le> unat e"
proof (induction objs arbitrary: a)
  case Nil
  then show ?case by (simp add: live_bytes_def)
next
  case (Cons ob objs)
  obtain marked sz where ob: "ob = (marked, sz)" by (cases ob)
  from Cons.prems ob have a: "a < e" "sz \<le> e - a"
    and t: "tiled P page m (a + sz) objs e" by auto
  have u: "unat (a + sz) = unat a + unat sz" using a by (rule step_no_wrap)
  from Cons.IH [OF t] u
  have s: "unat (live_bytes objs) = sum_list (map (\<lambda>ob. unat (snd ob)) (filter fst objs))"
    and b: "unat a + unat sz + unat (live_bytes objs) \<le> unat e" by simp_all
  have "unat (sz + live_bytes objs) = unat sz + unat (live_bytes objs)"
    using b unat_lt64 [of e] by (subst unat_add_lem [THEN iffD1]) auto
  with s b ob show ?case by (simp add: live_bytes_def)
qed

lemma SweepPage_swept:
  assumes "tiled P page (mem h) (object_start pg) objs (object_end pg)"
    and "\<not> is_image_page pg"
    and "page_type pg = kExecutable \<longrightarrow> word_aligned objs"
  shows "sweep_loop P page pg freelist locked (object_start pg) 0 h =
           Some (Inr (object_end pg, live_bytes objs,
             swept P pg freelist locked (object_start pg) (segments objs) h))"
    and "SweepPage P page pg freelist locked h =
           Some (Inr (live_bytes objs \<noteq> 0, pg\<lparr>used_in_bytes := live_bytes objs\<rparr>,
             swept P pg freelist locked (object_start pg) (segments objs) h))"
proof -
  show l: "sweep_loop P page pg freelist locked (object_start pg) 0 h =
           Some (Inr (object_end pg, live_bytes objs,
             swept P pg freelist locked (object_start pg) (segments objs) h))"
    using sweep_loop_swept [of P page h "object_start pg" "segments objs" pg freelist locked 0]
      assms maximal_segments [of objs]
    by (simp add: objs_of_segments live_total_segments)
  show "SweepPage P page pg freelist locked h =
           Some (Inr (live_bytes objs \<noteq> 0, pg\<lparr>used_in_bytes := live_bytes objs\<rparr>,
             swept P pg freelist locked (object_start pg) (segments objs) h))"
    using assms(2) by (simp add: SweepPage_def l)
qed

text \<open>
  Claim C1. On a page that is not an image page and whose object area is tiled by
  object headers from \<open>object_start\<close> to \<open>object_end\<close> (sizes positive; multiples of the
  word size on an executable page, where the run filler writes whole words), the scan
  loop of \<^verbatim>\<open>SweepPage\<close> ends with the scan position on \<open>object_end\<close>, the assertion
  \<^verbatim>\<open>current == end\<close> holds, \<open>used_in_bytes\<close> of the page is set to the sum of the sizes of
  the marked objects (a sum that does not wrap), and the result is whether that sum is
  not 0.
\<close>

theorem SweepPage_used_in_bytes:
  assumes "tiled P page (mem h) (object_start pg) objs (object_end pg)"
    and "\<not> is_image_page pg"
    and "page_type pg = kExecutable \<longrightarrow> word_aligned objs"
  shows "\<exists>h'. sweep_loop P page pg freelist locked (object_start pg) 0 h =
                 Some (Inr (object_end pg, live_bytes objs, h')) \<and>
              SweepPage P page pg freelist locked h =
                 Some (Inr (live_bytes objs \<noteq> 0, pg\<lparr>used_in_bytes := live_bytes objs\<rparr>, h')) \<and>
              unat (live_bytes objs) = sum_list (map (\<lambda>ob. unat (snd ob)) (filter fst objs))"
  using SweepPage_swept [OF assms] tiled_live_bytes [OF assms(1)] by blast

theorem SweepPage_used_in_bytes_witness:
  "tiled P0 0x40000 (mem h0) (object_start pg0) [(True, 16), (False, 16), (True, 16)] (object_end pg0) \<and>
   \<not> is_image_page pg0 \<and> page_type pg0 = kExecutable \<and>
   word_aligned [(True, 16), (False, 16), (True, 16)] \<and>
   (\<exists>h'. SweepPage P0 0x40000 pg0 7 False h0 = Some (Inr (True, pg0\<lparr>used_in_bytes := 32\<rparr>, h')))"
proof -
  have t: "tiled P0 0x40000 (mem h0) (object_start pg0) [(True, 16), (False, 16), (True, 16)] (object_end pg0)"
    by (simp add: P0_def h0_def pg0_def)
  have i: "\<not> is_image_page pg0" by (simp add: pg0_def)
  have a: "word_aligned [(True, 16), (False, 16), (True, 16)]"
    by (simp add: word_aligned_def kWordSize_def)
  have e: "page_type pg0 = kExecutable" by (simp add: pg0_def)
  from a have a': "page_type pg0 = kExecutable \<longrightarrow> word_aligned [(True, 16), (False, 16), (True, 16)]" by simp
  from SweepPage_used_in_bytes [OF t i a', of 7 False] t i a e show ?thesis
    by (auto simp: live_bytes_def)
qed

lemma sweep_body_result:
  assumes t: "tiled P page (mem h) current ((marked, sz) # rest) (object_end pg)"
    and al: "page_type pg = kExecutable \<longrightarrow> word_aligned ((marked, sz) # rest)"
  shows "\<exists>obj_size used' h'.
           sweep_body P page pg freelist locked current used h = Some (Inr (obj_size, used', h')) \<and>
           obj_size = (if marked then sz
                       else sz + sum_list (map snd (takeWhile (\<lambda>ob. \<not> fst ob) rest))) \<and>
           used' = (if marked then used + sz else used) \<and>
           unat sz \<le> unat obj_size \<and>
           unat (current + obj_size) = unat current + unat obj_size \<and>
           current + obj_size \<le> object_end pg"
proof (cases marked)
  case True
  let ?e = "object_end pg"
  from t have a: "current < ?e" "sz \<le> ?e - current"
    and t1: "tiled P page (mem h) (current + sz) rest ?e" by auto
  have "unat (current + sz) = unat current + unat sz" using a by (rule step_no_wrap)
  moreover have "current + sz \<le> ?e" using t1 by (rule tiled_le)
  ultimately show ?thesis
    using sweep_body_live [of P page h current sz rest pg freelist locked used] t True
    by simp
next
  case False
  let ?e = "object_end pg"
  let ?szs = "map snd (takeWhile (\<lambda>ob. \<not> fst ob) rest)"
  let ?rest = "dropWhile (\<lambda>ob. \<not> fst ob) rest"
  let ?n = "sum_list (sz # ?szs)"
  have run: "map (Pair False) ?szs = takeWhile (\<lambda>ob. \<not> fst ob) rest"
    by (induction rest) auto
  have objs: "(marked, sz) # rest = map (Pair False) (sz # ?szs) @ ?rest"
    using False run by simp
  from t objs have t': "tiled P page (mem h) current (map (Pair False) (sz # ?szs) @ ?rest) ?e"
    by simp
  have r: "case ?rest of [] \<Rightarrow> True | ob # _ \<Rightarrow> fst ob"
    by (induction rest) auto
  have "page_type pg = kExecutable \<longrightarrow> word_aligned (map (Pair False) (sz # ?szs) @ ?rest)"
    using al objs by simp
  then have al': "page_type pg = kExecutable \<longrightarrow> list_all (\<lambda>sz. unat sz mod kWordSize = 0) (sz # ?szs)"
    using word_aligned_run [of "sz # ?szs"] by (simp only: word_aligned_append) simp
  from tiled_prefix_bounds [OF t']
  have b: "unat current + unat ?n \<le> unat ?e"
    and u: "unat ?n = sum_list (map unat (sz # ?szs))"
    and t1: "tiled P page (mem h) (current + ?n) ?rest ?e"
    by (simp_all add: comp_def)
  have "unat (current + ?n) = unat current + unat ?n"
    using b unat_lt64 [of ?e] by (subst unat_add_lem [THEN iffD1]) auto
  moreover have "unat sz \<le> unat ?n" using u by simp
  moreover have "current + ?n \<le> ?e" using t1 by (rule tiled_le)
  ultimately show ?thesis
    using sweep_body_garbage [OF t' r al', of freelist locked used] False by simp
qed

text \<open>
  Claim C10. On a heap tiled from \<open>current\<close> to \<open>object_end\<close> by headers of positive
  size (word-aligned on an executable page), the scan loop of \<^verbatim>\<open>SweepPage\<close> returns,
  with the scan position on \<open>object_end\<close>. When \<open>current\<close> is before \<open>object_end\<close>, the
  header at \<open>current\<close> is that of the first object of the tiling, of the positive size
  \<open>sz\<close>, and the body of the loop returns as \<open>obj_size\<close> that size when the object is
  marked, and the sum of the sizes of the unmarked objects from \<open>current\<close> up to the
  next marked one when it is not: at least \<open>sz\<close> in both cases. \<open>current + obj_size\<close>
  stays at or before \<open>object_end\<close>, so the distance to \<open>object_end\<close> decreases strictly.
\<close>

theorem sweep_loop_terminates:
  assumes "tiled P page (mem h) current objs (object_end pg)"
    and "page_type pg = kExecutable \<longrightarrow> word_aligned objs"
  shows "(\<exists>used' h'. sweep_loop P page pg freelist locked current used h =
            Some (Inr (object_end pg, used', h'))) \<and>
         (current < object_end pg \<longrightarrow>
            (\<exists>marked sz rest obj_size used' h'.
               objs = (marked, sz) # rest \<and> mem h current = Tags marked sz \<and> 0 < sz \<and>
               sweep_body P page pg freelist locked current used h =
                 Some (Inr (obj_size, used', h')) \<and>
               obj_size = (if marked then sz
                           else sz + sum_list (map snd (takeWhile (\<lambda>ob. \<not> fst ob) rest))) \<and>
               unat sz \<le> unat obj_size \<and>
               0 < obj_size \<and> current + obj_size \<le> object_end pg \<and>
               unat (object_end pg) - unat (current + obj_size)
                 < unat (object_end pg) - unat current))"
proof (intro conjI impI)
  show "\<exists>used' h'. sweep_loop P page pg freelist locked current used h =
            Some (Inr (object_end pg, used', h'))"
    using sweep_loop_swept [of P page h current "segments objs" pg freelist locked used]
      assms maximal_segments [of objs]
    by (simp add: objs_of_segments)
next
  assume lt: "current < object_end pg"
  with assms(1) obtain marked sz rest where objs: "objs = (marked, sz) # rest"
    by (cases objs) auto
  from assms(1) objs have hd: "mem h current = Tags marked sz" "0 < sz" by simp_all
  from sweep_body_result [OF assms [unfolded objs], of freelist locked used]
  obtain obj_size used' h' where
    b: "sweep_body P page pg freelist locked current used h = Some (Inr (obj_size, used', h'))"
    and v: "obj_size = (if marked then sz
                        else sz + sum_list (map snd (takeWhile (\<lambda>ob. \<not> fst ob) rest)))"
    and ge: "unat sz \<le> unat obj_size"
    and u: "unat (current + obj_size) = unat current + unat obj_size"
    and le: "current + obj_size \<le> object_end pg" by blast
  from hd(2) ge have p: "0 < obj_size" by (simp add: word_less_nat_alt)
  then have "0 < unat obj_size" by (simp add: word_less_nat_alt)
  moreover from le have "unat (current + obj_size) \<le> unat (object_end pg)"
    by (simp add: word_le_nat_alt)
  ultimately have "unat (object_end pg) - unat (current + obj_size)
      < unat (object_end pg) - unat current" using u by arith
  with objs hd b v ge p le show "\<exists>marked sz rest obj_size used' h'.
       objs = (marked, sz) # rest \<and> mem h current = Tags marked sz \<and> 0 < sz \<and>
       sweep_body P page pg freelist locked current used h = Some (Inr (obj_size, used', h')) \<and>
       obj_size = (if marked then sz
                   else sz + sum_list (map snd (takeWhile (\<lambda>ob. \<not> fst ob) rest))) \<and>
       unat sz \<le> unat obj_size \<and>
       0 < obj_size \<and> current + obj_size \<le> object_end pg \<and>
       unat (object_end pg) - unat (current + obj_size) < unat (object_end pg) - unat current"
    by blast
qed

theorem sweep_loop_terminates_witness:
  "tiled P0 0x40000 (mem h0) (object_start pg0) [(True, 16), (False, 16), (True, 16)] (object_end pg0) \<and>
   page_type pg0 = kExecutable \<and> word_aligned [(True, 16), (False, 16), (True, 16)] \<and>
   object_start pg0 < object_end pg0 \<and> mem h0 (object_start pg0) = Tags True 16 \<and>
   (\<exists>used' h'. sweep_loop P0 0x40000 pg0 7 False (object_start pg0) 0 h0 =
      Some (Inr (object_end pg0, used', h'))) \<and>
   (\<exists>used' h'. sweep_body P0 0x40000 pg0 7 False (object_start pg0) 0 h0 =
      Some (Inr (16, used', h'))) \<and>
   unat (object_end pg0) - unat (object_start pg0 + 16)
     < unat (object_end pg0) - unat (object_start pg0) \<and>
   tiled P0 0x40000 (mem h1) 0x40030 [(False, 16), (False, 32), (True, 16)] (object_end pg1) \<and>
   page_type pg1 \<noteq> kExecutable \<and> 0x40030 < object_end pg1 \<and>
   mem h1 0x40030 = Tags False 16 \<and>
   (\<exists>used' h'. sweep_loop P0 0x40000 pg1 7 False 0x40030 0 h1 =
      Some (Inr (object_end pg1, used', h'))) \<and>
   (\<exists>used' h'. sweep_body P0 0x40000 pg1 7 False 0x40030 0 h1 = Some (Inr (48, used', h'))) \<and>
   unat (object_end pg1) - unat (0x40030 + 48 :: uword)
     < unat (object_end pg1) - unat (0x40030 :: uword)"
proof -
  have t0: "tiled P0 0x40000 (mem h0) (object_start pg0) [(True, 16), (False, 16), (True, 16)] (object_end pg0)"
    by (simp add: P0_def h0_def pg0_def)
  have w0: "word_aligned [(True, 16), (False, 16), (True, 16)]"
    by (simp add: word_aligned_def kWordSize_def)
  have e0: "page_type pg0 = kExecutable" by (simp add: pg0_def)
  have l0: "object_start pg0 < object_end pg0" by (simp add: pg0_def)
  have m0: "mem h0 (object_start pg0) = Tags True 16" by (simp add: h0_def pg0_def)
  from w0 have a0: "page_type pg0 = kExecutable \<longrightarrow> word_aligned [(True, 16), (False, 16), (True, 16)]"
    by simp
  from sweep_loop_terminates [OF t0 a0, of 7 False 0] l0
  have 1: "\<exists>used' h'. sweep_loop P0 0x40000 pg0 7 False (object_start pg0) 0 h0 =
      Some (Inr (object_end pg0, used', h'))"
    and 2: "\<exists>used' h'. sweep_body P0 0x40000 pg0 7 False (object_start pg0) 0 h0 =
      Some (Inr (16, used', h'))"
    by auto
  have 3: "unat (object_end pg0) - unat (object_start pg0 + 16)
      < unat (object_end pg0) - unat (object_start pg0)" by (simp add: pg0_def)
  have t: "tiled P0 0x40000 (mem h1) 0x40030 [(False, 16), (False, 32), (True, 16)] (object_end pg1)"
    by (simp add: P0_def h1_def pg1_def)
  have e: "page_type pg1 \<noteq> kExecutable" by (simp add: pg1_def)
  have l: "0x40030 < object_end pg1" by (simp add: pg1_def)
  have m: "mem h1 0x40030 = Tags False 16" by (simp add: h1_def)
  from e have a: "page_type pg1 = kExecutable \<longrightarrow> word_aligned [(False, 16), (False, 32), (True, 16)]"
    by simp
  from sweep_loop_terminates [OF t a, of 7 False 0] l
  have 4: "\<exists>used' h'. sweep_loop P0 0x40000 pg1 7 False 0x40030 0 h1 =
      Some (Inr (object_end pg1, used', h'))"
    and 5: "\<exists>used' h'. sweep_body P0 0x40000 pg1 7 False 0x40030 0 h1 = Some (Inr (48, used', h'))"
    by auto
  have 6: "unat (object_end pg1) - unat (0x40030 + 48 :: uword)
      < unat (object_end pg1) - unat (0x40030 :: uword)" by (simp add: pg1_def)
  from t0 e0 w0 l0 m0 1 2 3 t e l m 4 5 6 show ?thesis by simp
qed

lemma trace_fill_result:
  "trace (fill_result P k c h) =
     trace h @ map (\<lambda>i. EvStoreWord (c + of_nat (kWordSize * i)) (GetBreakInstructionFiller P)) [0..<k]"
proof (induction k arbitrary: c h)
  case 0
  then show ?case by simp
next
  case (Suc k)
  have "map (\<lambda>i. EvStoreWord (c + of_nat (kWordSize * i)) (GetBreakInstructionFiller P)) [0..<Suc k]
      = EvStoreWord c (GetBreakInstructionFiller P) #
        map (\<lambda>i. EvStoreWord (c + of_nat kWordSize + of_nat (kWordSize * i)) (GetBreakInstructionFiller P)) [0..<k]"
    by (simp add: upt_conv_Cons map_Suc_upt [symmetric] add.assoc distrib_left del: upt_Suc)
  then show ?case
    using Suc.IH [of "c + of_nat kWordSize" "StoreWord h c (GetBreakInstructionFiller P)"]
    by (simp add: StoreWord_def del: upt_Suc)
qed

lemma trace_poison: "trace (poison P pg a n h) = trace h @ poison_events P pg (a, n)"
  by (simp add: poison_def poison_events_def trace_fill_result Memset_def)

lemma trace_publish:
  "trace (publish pg freelist locked a n h) = trace h @ publish_events pg freelist locked (a, n)"
  by (simp add: publish_def publish_events_def spans_object_area_def sink_call_def
      Free_def FreeLocked_def)

lemma trace_swept:
  "trace (swept P pg freelist locked a segs h) = trace h @ sweep_events P pg freelist locked a segs"
proof (induction segs arbitrary: a h)
  case Nil
  then show ?case by simp
next
  case (Cons sg segs)
  then show ?case
    by (cases sg) (simp_all add: trace_publish trace_poison)
qed

lemma is_sink_call_simps [simp]:
  "\<not> is_sink_call (EvIsMarked a)" "\<not> is_sink_call (EvClearMarkBit a)"
  "\<not> is_sink_call (EvStoreWord a v)" "\<not> is_sink_call (EvMemset a b n)"
  "is_sink_call (EvFree fl a n)" "is_sink_call (EvFreeLocked fl a n)"
  by (simp_all add: is_sink_call_def)

lemma sink_calls_Nil [simp]: "sink_calls [] = []"
  by (simp add: sink_calls_def)

lemma sink_calls_Cons [simp]:
  "sink_calls (ev # evs) = (if is_sink_call ev then ev # sink_calls evs else sink_calls evs)"
  by (simp add: sink_calls_def)

lemma sink_calls_append [simp]: "sink_calls (xs @ ys) = sink_calls xs @ sink_calls ys"
  by (simp add: sink_calls_def)

lemma sink_calls_run_reads [simp]: "sink_calls (run_reads pg a szs) = []"
  by (simp add: sink_calls_def run_reads_def is_sink_call_def comp_def)

lemma sink_calls_poison_events [simp]: "sink_calls (poison_events P pg r) = []"
  by (simp add: sink_calls_def poison_events_def is_sink_call_def)

lemma sink_calls_publish_events [simp]:
  "sink_calls (publish_events pg freelist locked r) =
     (if spans_object_area pg r then [] else [sink_call freelist locked r])"
  by (simp add: sink_calls_def publish_events_def is_sink_call_def sink_call_def)

lemma sink_calls_sweep_events:
  "sink_calls (sweep_events P pg freelist locked a segs) =
     map (sink_call freelist locked)
       (filter (\<lambda>r. \<not> spans_object_area pg r) (garbage_runs a segs))"
proof (induction segs arbitrary: a)
  case Nil
  then show ?case by simp
next
  case (Cons sg segs)
  then show ?case
    by (cases sg) simp_all
qed

text \<open>
  Claim C2. The calls that \<^verbatim>\<open>SweepPage\<close> makes on the free-list sink are, in order, one
  call for each maximal run of adjacent unmarked objects that does not span the whole
  object area: the address is that of the first object of the run, the length is the
  sum of the sizes of the objects of the run. There is no other call, so no object
  inside a run is inserted on its own.
\<close>

theorem SweepPage_coalesces:
  assumes "tiled P page (mem h) (object_start pg) objs (object_end pg)"
    and "\<not> is_image_page pg"
    and "page_type pg = kExecutable \<longrightarrow> word_aligned objs"
  shows "\<exists>in_use pg' h'.
           SweepPage P page pg freelist locked h = Some (Inr (in_use, pg', h')) \<and>
           sink_calls (trace h') =
             sink_calls (trace h) @
             map (sink_call freelist locked)
               (filter (\<lambda>r. \<not> spans_object_area pg r)
                 (garbage_runs (object_start pg) (segments objs)))"
proof -
  let ?h' = "swept P pg freelist locked (object_start pg) (segments objs) h"
  have "SweepPage P page pg freelist locked h =
          Some (Inr (live_bytes objs \<noteq> 0, pg\<lparr>used_in_bytes := live_bytes objs\<rparr>, ?h'))"
    using assms by (rule SweepPage_swept)
  moreover have "sink_calls (trace ?h') =
      sink_calls (trace h) @
      map (sink_call freelist locked)
        (filter (\<lambda>r. \<not> spans_object_area pg r) (garbage_runs (object_start pg) (segments objs)))"
    by (simp add: trace_swept sink_calls_sweep_events)
  ultimately show ?thesis by blast
qed

theorem SweepPage_coalesces_witness:
  "tiled P0 0x40000 (mem h1) (object_start pg1)
     [(True, 16), (False, 16), (False, 32), (True, 16)] (object_end pg1) \<and>
   \<not> is_image_page pg1 \<and> page_type pg1 \<noteq> kExecutable \<and>
   (\<exists>in_use pg' h'.
      SweepPage P0 0x40000 pg1 7 False h1 = Some (Inr (in_use, pg', h')) \<and>
      sink_calls (trace h') = [EvFree 7 0x40030 48])"
proof -
  let ?objs = "[(True, 16), (False, 16), (False, 32), (True, 16 :: uword)]"
  have t: "tiled P0 0x40000 (mem h1) (object_start pg1) ?objs (object_end pg1)"
    by (simp add: P0_def h1_def pg1_def)
  have i: "\<not> is_image_page pg1" by (simp add: pg1_def)
  have e: "page_type pg1 \<noteq> kExecutable" by (simp add: pg1_def)
  then have a: "page_type pg1 = kExecutable \<longrightarrow> word_aligned ?objs" by simp
  have "sink_calls (trace h1) @
          map (sink_call 7 False)
            (filter (\<lambda>r. \<not> spans_object_area pg1 r) (garbage_runs (object_start pg1) (segments ?objs)))
        = [EvFree 7 0x40030 48]"
    by (simp add: h1_def pg1_def sink_calls_def sink_call_def spans_object_area_def)
  with SweepPage_coalesces [OF t i a, of 7 False] t i e show ?thesis
    by auto
qed

lemma segments_all_garbage:
  "objs \<noteq> [] \<Longrightarrow> \<forall>ob\<in>set objs. \<not> fst ob \<Longrightarrow> segments objs = [Garbage (map snd objs)]"
proof (induction objs)
  case Nil
  then show ?case by simp
next
  case (Cons ob objs)
  obtain marked sz where ob: "ob = (marked, sz)" by (cases ob)
  show ?case
  proof (cases objs)
    case Nil
    with Cons.prems ob show ?thesis by simp
  next
    case (Cons ob' objs')
    with Cons.IH Cons.prems ob show ?thesis by simp
  qed
qed

lemma sink_call_inj: "sink_call freelist locked r = sink_call freelist locked r' \<longleftrightarrow> r = r'"
  by (cases r; cases r') (simp add: sink_call_def)

lemma live_bytes_all_garbage: "\<forall>ob\<in>set objs. \<not> fst ob \<Longrightarrow> live_bytes objs = 0"
  by (induction objs) (simp_all add: live_bytes_def)

text \<open>
  Claim C3. \<^verbatim>\<open>SweepPage\<close> hands a garbage run to the free-list sink if and only if the
  run does not span the whole object area. When all objects of the page are unmarked,
  the sink is not called, \<open>used_in_bytes\<close> is set to 0 and the result is \<open>False\<close>.
\<close>

theorem SweepPage_whole_page_garbage:
  assumes "tiled P page (mem h) (object_start pg) objs (object_end pg)"
    and "\<not> is_image_page pg"
    and "page_type pg = kExecutable \<longrightarrow> word_aligned objs"
  shows "\<exists>in_use pg' h' evs.
           SweepPage P page pg freelist locked h = Some (Inr (in_use, pg', h')) \<and>
           trace h' = trace h @ evs \<and>
           (\<forall>r\<in>set (garbage_runs (object_start pg) (segments objs)).
              sink_call freelist locked r \<in> set evs \<longleftrightarrow> \<not> spans_object_area pg r) \<and>
           (objs \<noteq> [] \<and> (\<forall>ob\<in>set objs. \<not> fst ob) \<longrightarrow>
              sink_calls evs = [] \<and> used_in_bytes pg' = 0 \<and> \<not> in_use)"
proof -
  let ?a = "object_start pg"
  let ?h' = "swept P pg freelist locked ?a (segments objs) h"
  let ?evs = "sweep_events P pg freelist locked ?a (segments objs)"
  let ?runs = "garbage_runs ?a (segments objs)"
  have sp: "SweepPage P page pg freelist locked h =
          Some (Inr (live_bytes objs \<noteq> 0, pg\<lparr>used_in_bytes := live_bytes objs\<rparr>, ?h'))"
    using assms by (rule SweepPage_swept)
  have tr: "trace ?h' = trace h @ ?evs" by (rule trace_swept)
  have sc: "sink_calls ?evs = map (sink_call freelist locked)
      (filter (\<lambda>r. \<not> spans_object_area pg r) ?runs)"
    by (rule sink_calls_sweep_events)
  have iff: "sink_call freelist locked r \<in> set ?evs \<longleftrightarrow> \<not> spans_object_area pg r"
    if "r \<in> set ?runs" for r
  proof -
    have "sink_call freelist locked r \<in> set ?evs \<longleftrightarrow>
          sink_call freelist locked r \<in> set (sink_calls ?evs)"
      by (simp add: sink_calls_def is_sink_call_def sink_call_def)
    also have "\<dots> \<longleftrightarrow> r \<in> set ?runs \<and> \<not> spans_object_area pg r"
      unfolding sc by (auto simp: sink_call_inj)
    finally show ?thesis using that by simp
  qed
  have whole: "sink_calls ?evs = [] \<and> live_bytes objs = 0"
    if ne: "objs \<noteq> []" and g: "\<forall>ob\<in>set objs. \<not> fst ob"
  proof -
    have seg: "segments objs = [Garbage (map snd objs)]"
      using ne g by (rule segments_all_garbage)
    have "tiled P page (mem h) ?a (objs @ []) (object_end pg)" using assms(1) by simp
    from tiled_prefix_bounds [OF this]
    have "?a + sum_list (map snd objs) = object_end pg" by simp
    then have "sink_calls ?evs = []"
      unfolding sc seg by (simp add: spans_object_area_def)
    with g show ?thesis by (simp add: live_bytes_all_garbage)
  qed
  from sp tr iff whole show ?thesis
    by (intro exI [of _ "live_bytes objs \<noteq> 0"] exI [of _ "pg\<lparr>used_in_bytes := live_bytes objs\<rparr>"]
        exI [of _ ?h'] exI [of _ ?evs]) simp
qed

theorem SweepPage_whole_page_garbage_witness:
  "tiled P0 0x40000 (mem h2) (object_start pg2) [(False, 16), (False, 16)] (object_end pg2) \<and>
   \<not> is_image_page pg2 \<and> page_type pg2 \<noteq> kExecutable \<and>
   garbage_runs (object_start pg2) (segments [(False, 16), (False, 16)]) = [(0x40020, 32)] \<and>
   spans_object_area pg2 (0x40020, 32) \<and>
   (\<exists>pg' h'.
      SweepPage P0 0x40000 pg2 7 False h2 = Some (Inr (False, pg', h')) \<and>
      EvFree 7 0x40020 32 \<notin> set (trace h') \<and> sink_calls (trace h') = [] \<and>
      used_in_bytes pg' = 0)"
proof -
  let ?objs = "[(False, 16), (False, 16 :: uword)]"
  have t: "tiled P0 0x40000 (mem h2) (object_start pg2) ?objs (object_end pg2)"
    by (simp add: P0_def h2_def pg2_def)
  have i: "\<not> is_image_page pg2" by (simp add: pg2_def)
  have e: "page_type pg2 \<noteq> kExecutable" by (simp add: pg2_def)
  then have a: "page_type pg2 = kExecutable \<longrightarrow> word_aligned ?objs" by simp
  have r: "garbage_runs (object_start pg2) (segments ?objs) = [(0x40020, 32)]"
    by (simp add: pg2_def)
  have s: "spans_object_area pg2 (0x40020, 32)"
    by (simp add: pg2_def spans_object_area_def)
  have tr: "trace h2 = []" by (simp add: h2_def)
  from SweepPage_whole_page_garbage [OF t i a, of 7 False]
  obtain in_use pg' h' evs where
    sp: "SweepPage P0 0x40000 pg2 7 False h2 = Some (Inr (in_use, pg', h'))"
    and ev: "trace h' = trace h2 @ evs"
    and iff: "\<forall>r\<in>set (garbage_runs (object_start pg2) (segments ?objs)).
              sink_call 7 False r \<in> set evs \<longleftrightarrow> \<not> spans_object_area pg2 r"
    and w: "?objs \<noteq> [] \<and> (\<forall>ob\<in>set ?objs. \<not> fst ob) \<longrightarrow>
              sink_calls evs = [] \<and> used_in_bytes pg' = 0 \<and> \<not> in_use"
    by blast
  from iff r s have "EvFree 7 0x40020 32 \<notin> set evs" by (simp add: sink_call_def)
  moreover from w have "sink_calls evs = []" "used_in_bytes pg' = 0" "\<not> in_use" by simp_all
  ultimately show ?thesis using t i e r s sp ev tr by auto
qed

lemma write_bytes_inside:
  "unat a + length bs \<le> unat (e::uword) \<Longrightarrow> a \<le> x \<Longrightarrow> unat x < unat a + length bs \<Longrightarrow>
   write_bytes m a bs x = Raw (bs ! (unat x - unat a))"
proof (induction bs arbitrary: m a)
  case Nil
  then show ?case by (simp add: word_le_nat_alt)
next
  case (Cons b bs)
  have a1: "unat (a + 1) = unat a + 1"
    using Cons.prems(1) unat_plus_nat [of a 1 e] by simp
  show ?case
  proof (cases "x = a")
    case True
    have "write_bytes (m(a := Raw b)) (a + 1) bs a = (m(a := Raw b)) a"
      using Cons.prems(1) a1 by (intro write_bytes_outside [where e = e]) (auto simp: word_less_nat_alt)
    with True show ?thesis by simp
  next
    case False
    with Cons.prems(2) have "a < x" by simp
    then have "unat a < unat x" by (simp add: word_less_nat_alt)
    then have le: "a + 1 \<le> x" using a1 by (simp add: word_le_nat_alt)
    have "write_bytes (m(a := Raw b)) (a + 1) bs x = Raw (bs ! (unat x - unat (a + 1)))"
      using Cons.prems a1 le by (intro Cons.IH) auto
    moreover have "unat x - unat a = Suc (unat x - unat (a + 1))"
      using \<open>unat a < unat x\<close> a1 by simp
    ultimately show ?thesis by simp
  qed
qed

lemma fill_result_inside:
  "unat c + kWordSize * k \<le> unat (e :: uword) \<Longrightarrow> c \<le> x \<Longrightarrow> unat x < unat c + kWordSize * k \<Longrightarrow>
   mem (fill_result P k c h) x =
     Raw (uword_bytes kWordSize (GetBreakInstructionFiller P) ! ((unat x - unat c) mod kWordSize))"
proof (induction k arbitrary: c h)
  case 0
  then show ?case by (simp add: word_le_nat_alt)
next
  case (Suc k)
  let ?h1 = "StoreWord h c (GetBreakInstructionFiller P)"
  let ?bs = "uword_bytes kWordSize (GetBreakInstructionFiller P)"
  have u8: "unat (c + of_nat kWordSize) = unat c + kWordSize"
    using Suc.prems by (intro unat_plus_nat [where e = e]) simp
  have cx: "unat c \<le> unat x" using Suc.prems(2) by (simp add: word_le_nat_alt)
  show ?case
  proof (cases "unat x < unat c + kWordSize")
    case True
    have "mem (fill_result P k (c + of_nat kWordSize) ?h1) x = mem ?h1 x"
      using Suc.prems(1) u8 True
      by (intro fill_result_outside [where e = e]) (auto simp: word_less_nat_alt)
    also have "\<dots> = Raw (?bs ! (unat x - unat c))"
      using Suc.prems True unfolding StoreWord_def
      by (simp, intro write_bytes_inside [where e = e]) auto
    also have "unat x - unat c = (unat x - unat c) mod kWordSize"
      using True cx by simp
    finally show ?thesis by simp
  next
    case False
    then have le: "c + of_nat kWordSize \<le> x" using u8 by (simp add: word_le_nat_alt)
    have "mem (fill_result P k (c + of_nat kWordSize) ?h1) x =
        Raw (?bs ! ((unat x - unat (c + of_nat kWordSize)) mod kWordSize))"
      using Suc.prems u8 le by (intro Suc.IH) auto
    moreover have "(unat x - unat (c + of_nat kWordSize)) mod kWordSize = (unat x - unat c) mod kWordSize"
      using False u8 by (simp add: le_mod_geq)
    ultimately show ?thesis by simp
  qed
qed

lemma poison_inside:
  assumes "unat a + unat n \<le> unat (e :: uword)"
    and "page_type pg = kExecutable \<longrightarrow> unat n mod kWordSize = 0"
    and "a \<le> x" and "unat x < unat a + unat n"
  shows "mem (poison P pg a n h) x = poisoned_cell P pg (mem h x) (unat x - unat a)"
proof (cases "page_type pg = kExecutable")
  case True
  with assms(2) have "kWordSize * (unat n div kWordSize) = unat n" by auto
  with assms(1,3,4) True show ?thesis
    unfolding poison_def poisoned_cell_def by (simp, intro fill_result_inside [where e = e]) auto
next
  case False
  show ?thesis
  proof (cases "DEBUG P")
    case True
    have "write_bytes (mem h) a (replicate (unat n) (kZapByte P)) x =
            Raw (replicate (unat n) (kZapByte P) ! (unat x - unat a))"
      using assms by (intro write_bytes_inside [where e = e]) auto
    moreover have "unat x - unat a < unat n" using assms(3,4) by (simp add: word_le_nat_alt)
    ultimately show ?thesis
      using False True by (simp add: poison_def poisoned_cell_def Memset_def)
  next
    case F: False
    with False show ?thesis by (simp add: poison_def poisoned_cell_def)
  qed
qed


lemma run_geometry:
  assumes "tiled P page m a (map (Pair False) szs @ rest) e"
  shows "unat a + unat (sum_list szs) \<le> unat e"
    and "unat (a + sum_list szs) = unat a + unat (sum_list szs)"
    and "a \<le> a + sum_list szs"
    and "tiled P page m (a + sum_list szs) rest e"
    and "word_aligned (map (Pair False) szs) \<Longrightarrow> unat (sum_list szs) mod kWordSize = 0"
proof -
  from tiled_prefix_bounds [OF assms]
  have b: "unat a + sum_list (map unat szs) \<le> unat e"
    and u: "unat (sum_list szs) = sum_list (map unat szs)"
    and t: "tiled P page m (a + sum_list szs) rest e"
    by (simp_all add: comp_def)
  show 1: "unat a + unat (sum_list szs) \<le> unat e" using b u by simp
  show 2: "unat (a + sum_list szs) = unat a + unat (sum_list szs)"
    using 1 unat_lt64 [of e] by (subst unat_add_lem [THEN iffD1]) auto
  show "a \<le> a + sum_list szs" using 2 by (simp add: word_le_nat_alt)
  show "tiled P page m (a + sum_list szs) rest e" by (rule t)
  show "unat (sum_list szs) mod kWordSize = 0" if "word_aligned (map (Pair False) szs)"
    using that u aligned_sum [of szs] by (simp add: word_aligned_run)
qed

lemma live_geometry:
  assumes "tiled P page m a ((True, sz) # rest) e"
  shows "unat a + unat sz \<le> unat e"
    and "unat (a + sz) = unat a + unat sz"
    and "a < a + sz"
    and "tiled P page m (a + sz) rest e"
proof -
  from assms have a: "a < e" "0 < sz" "sz \<le> e - a" and t: "tiled P page m (a + sz) rest e"
    by auto
  show 2: "unat (a + sz) = unat a + unat sz" using a(1,3) by (rule step_no_wrap)
  show "unat a + unat sz \<le> unat e" using tiled_le [OF t] 2 by (simp add: word_le_nat_alt)
  show "a < a + sz" using a(2) 2 by (simp add: word_less_nat_alt)
  show "tiled P page m (a + sz) rest e" by (rule t)
qed

lemma swept_mem_below:
  "tiled P page m a (concat (map seg_objs segs)) e \<Longrightarrow>
   (page_type pg = kExecutable \<longrightarrow> word_aligned (concat (map seg_objs segs))) \<Longrightarrow> x < a \<Longrightarrow>
   mem (swept P pg freelist locked a segs h) x = mem h x"
proof (induction segs arbitrary: a h)
  case Nil
  then show ?case by simp
next
  case (Cons sg segs)
  let ?rest = "concat (map seg_objs segs)"
  show ?case
  proof (cases sg)
    case (Live sz)
    from Cons.prems(1) Live have t: "tiled P page m a ((True, sz) # ?rest) e" by simp
    note g = live_geometry [OF t]
    have "x < a + sz" using Cons.prems(3) g(3) by simp
    moreover have "page_type pg = kExecutable \<longrightarrow> word_aligned ?rest"
      using Cons.prems(2) Live by (simp add: word_aligned_Cons word_aligned_append)
    ultimately have "mem (swept P pg freelist locked (a + sz) segs
        (h\<lparr>mem := (mem h)(a := Tags False sz),
           trace := trace h @ [EvIsMarked a, EvClearMarkBit a]\<rparr>)) x
      = mem (h\<lparr>mem := (mem h)(a := Tags False sz),
           trace := trace h @ [EvIsMarked a, EvClearMarkBit a]\<rparr>) x"
      using g(4) by (intro Cons.IH)
    with Cons.prems(3) Live show ?thesis by auto
  next
    case (Garbage szs)
    let ?n = "sum_list szs"
    let ?h1 = "publish pg freelist locked a ?n
                 (poison P pg a ?n (h\<lparr>trace := trace h @ run_reads pg a szs\<rparr>))"
    from Cons.prems(1) Garbage have t: "tiled P page m a (map (Pair False) szs @ ?rest) e" by simp
    note g = run_geometry [OF t]
    have al: "page_type pg = kExecutable \<longrightarrow> unat ?n mod kWordSize = 0"
      using Cons.prems(2) Garbage g(5) by (simp add: word_aligned_Cons word_aligned_append)
    have "x < a + ?n" using Cons.prems(3) g(3) by simp
    moreover have "page_type pg = kExecutable \<longrightarrow> word_aligned ?rest"
      using Cons.prems(2) Garbage by (simp add: word_aligned_Cons word_aligned_append)
    ultimately have "mem (swept P pg freelist locked (a + ?n) segs ?h1) x = mem ?h1 x"
      using g(4) by (intro Cons.IH)
    also have "\<dots> = mem h x"
      using poison_outside [OF g(1) al, of x P "h\<lparr>trace := trace h @ run_reads pg a szs\<rparr>"]
        Cons.prems(3) by simp
    finally show ?thesis using Garbage by simp
  qed
qed


lemma swept_live:
  "tiled P page m a (concat (map seg_objs segs)) e \<Longrightarrow>
   (page_type pg = kExecutable \<longrightarrow> word_aligned (concat (map seg_objs segs))) \<Longrightarrow>
   (b, sz) \<in> set (live_objects a segs) \<Longrightarrow>
   a \<le> b \<and> unat b + unat sz \<le> unat e \<and>
   mem (swept P pg freelist locked a segs h) b = Tags False sz \<and>
   (\<forall>x. b < x \<longrightarrow> unat x < unat b + unat sz \<longrightarrow>
      mem (swept P pg freelist locked a segs h) x = mem h x)"
proof (induction segs arbitrary: a h)
  case Nil
  then show ?case by simp
next
  case (Cons sg segs)
  let ?rest = "concat (map seg_objs segs)"
  show ?case
  proof (cases sg)
    case (Live sz0)
    let ?h1 = "h\<lparr>mem := (mem h)(a := Tags False sz0),
                  trace := trace h @ [EvIsMarked a, EvClearMarkBit a]\<rparr>"
    from Cons.prems(1) Live have t: "tiled P page m a ((True, sz0) # ?rest) e" by simp
    note g = live_geometry [OF t]
    have al: "page_type pg = kExecutable \<longrightarrow> word_aligned ?rest"
      using Cons.prems(2) Live by (simp add: word_aligned_Cons word_aligned_append)
    have sw: "swept P pg freelist locked a (sg # segs) h = swept P pg freelist locked (a + sz0) segs ?h1"
      using Live by simp
    show ?thesis
    proof (cases "(b, sz) = (a, sz0)")
      case True
      have below: "mem (swept P pg freelist locked (a + sz0) segs ?h1) x = mem ?h1 x"
        if "x < a + sz0" for x
        using g(4) al that by (rule swept_mem_below)
      have "mem (swept P pg freelist locked (a + sz0) segs ?h1) x = mem h x"
        if "a < x" "unat x < unat a + unat sz0" for x
      proof -
        from that(2) g(2) have "x < a + sz0" by (simp add: word_less_nat_alt)
        from below [OF this] that(1) show ?thesis by auto
      qed
      with below [OF g(3)] True g(1) show ?thesis unfolding sw by simp
    next
      case False
      with Cons.prems(3) Live have "(b, sz) \<in> set (live_objects (a + sz0) segs)" by auto
      from Cons.IH [OF g(4) al this, of ?h1]
      have le: "a + sz0 \<le> b" and bd: "unat b + unat sz \<le> unat e"
        and hd: "mem (swept P pg freelist locked (a + sz0) segs ?h1) b = Tags False sz"
        and fr: "\<And>x. b < x \<Longrightarrow> unat x < unat b + unat sz \<Longrightarrow>
            mem (swept P pg freelist locked (a + sz0) segs ?h1) x = mem ?h1 x" by auto
      have ab: "a < b" using g(3) le by simp
      have "mem (swept P pg freelist locked (a + sz0) segs ?h1) x = mem h x"
        if "b < x" "unat x < unat b + unat sz" for x
        using fr [OF that] ab that(1) by auto
      with ab bd hd show ?thesis unfolding sw by simp
    qed
  next
    case (Garbage szs)
    let ?n = "sum_list szs"
    let ?h0 = "h\<lparr>trace := trace h @ run_reads pg a szs\<rparr>"
    let ?h1 = "publish pg freelist locked a ?n (poison P pg a ?n ?h0)"
    from Cons.prems(1) Garbage have t: "tiled P page m a (map (Pair False) szs @ ?rest) e" by simp
    note g = run_geometry [OF t]
    have aln: "page_type pg = kExecutable \<longrightarrow> unat ?n mod kWordSize = 0"
      using Cons.prems(2) Garbage g(5) by (simp add: word_aligned_Cons word_aligned_append)
    have al: "page_type pg = kExecutable \<longrightarrow> word_aligned ?rest"
      using Cons.prems(2) Garbage by (simp add: word_aligned_Cons word_aligned_append)
    have sw: "swept P pg freelist locked a (sg # segs) h = swept P pg freelist locked (a + ?n) segs ?h1"
      using Garbage by simp
    from Cons.prems(3) Garbage have "(b, sz) \<in> set (live_objects (a + ?n) segs)" by simp
    from Cons.IH [OF g(4) al this, of ?h1]
    have le: "a + ?n \<le> b" and bd: "unat b + unat sz \<le> unat e"
      and hd: "mem (swept P pg freelist locked (a + ?n) segs ?h1) b = Tags False sz"
      and fr: "\<And>x. b < x \<Longrightarrow> unat x < unat b + unat sz \<Longrightarrow>
          mem (swept P pg freelist locked (a + ?n) segs ?h1) x = mem ?h1 x" by auto
    have ab: "a \<le> b" using g(3) le by simp
    have "mem (swept P pg freelist locked (a + ?n) segs ?h1) x = mem h x"
      if "b < x" "unat x < unat b + unat sz" for x
    proof -
      from le that(1) have "a + ?n \<le> x" by simp
      then have "unat a + unat ?n \<le> unat x" using g(2) by (simp add: word_le_nat_alt)
      then have "mem ?h1 x = mem h x"
        using poison_outside [OF g(1) aln, of x P ?h0] by simp
      with fr [OF that] show ?thesis by simp
    qed
    with ab bd hd show ?thesis unfolding sw by simp
  qed
qed

lemma swept_garbage:
  "tiled P page m a (concat (map seg_objs segs)) e \<Longrightarrow>
   (page_type pg = kExecutable \<longrightarrow> word_aligned (concat (map seg_objs segs))) \<Longrightarrow>
   (b, n) \<in> set (garbage_runs a segs) \<Longrightarrow>
   a \<le> b \<and> unat b + unat n \<le> unat e \<and>
   (page_type pg = kExecutable \<longrightarrow> unat n mod kWordSize = 0) \<and>
   (\<forall>x. b \<le> x \<longrightarrow> unat x < unat b + unat n \<longrightarrow>
      mem (swept P pg freelist locked a segs h) x = poisoned_cell P pg (mem h x) (unat x - unat b))"
proof (induction segs arbitrary: a h)
  case Nil
  then show ?case by simp
next
  case (Cons sg segs)
  let ?rest = "concat (map seg_objs segs)"
  show ?case
  proof (cases sg)
    case (Live sz0)
    let ?h1 = "h\<lparr>mem := (mem h)(a := Tags False sz0),
                  trace := trace h @ [EvIsMarked a, EvClearMarkBit a]\<rparr>"
    from Cons.prems(1) Live have t: "tiled P page m a ((True, sz0) # ?rest) e" by simp
    note g = live_geometry [OF t]
    have al: "page_type pg = kExecutable \<longrightarrow> word_aligned ?rest"
      using Cons.prems(2) Live by (simp add: word_aligned_Cons word_aligned_append)
    have sw: "swept P pg freelist locked a (sg # segs) h = swept P pg freelist locked (a + sz0) segs ?h1"
      using Live by simp
    from Cons.prems(3) Live have "(b, n) \<in> set (garbage_runs (a + sz0) segs)" by simp
    from Cons.IH [OF g(4) al this, of ?h1]
    have le: "a + sz0 \<le> b" and bd: "unat b + unat n \<le> unat e"
      and an: "page_type pg = kExecutable \<longrightarrow> unat n mod kWordSize = 0"
      and co: "\<And>x. b \<le> x \<Longrightarrow> unat x < unat b + unat n \<Longrightarrow>
          mem (swept P pg freelist locked (a + sz0) segs ?h1) x =
            poisoned_cell P pg (mem ?h1 x) (unat x - unat b)" by auto
    have ab: "a < b" using g(3) le by simp
    have "mem (swept P pg freelist locked (a + sz0) segs ?h1) x =
            poisoned_cell P pg (mem h x) (unat x - unat b)"
      if "b \<le> x" "unat x < unat b + unat n" for x
      using co [OF that] ab that(1) by auto
    with ab bd an show ?thesis unfolding sw by simp
  next
    case (Garbage szs)
    let ?n = "sum_list szs"
    let ?h0 = "h\<lparr>trace := trace h @ run_reads pg a szs\<rparr>"
    let ?h1 = "publish pg freelist locked a ?n (poison P pg a ?n ?h0)"
    from Cons.prems(1) Garbage have t: "tiled P page m a (map (Pair False) szs @ ?rest) e" by simp
    note g = run_geometry [OF t]
    have aln: "page_type pg = kExecutable \<longrightarrow> unat ?n mod kWordSize = 0"
      using Cons.prems(2) Garbage g(5) by (simp add: word_aligned_Cons word_aligned_append)
    have al: "page_type pg = kExecutable \<longrightarrow> word_aligned ?rest"
      using Cons.prems(2) Garbage by (simp add: word_aligned_Cons word_aligned_append)
    have sw: "swept P pg freelist locked a (sg # segs) h = swept P pg freelist locked (a + ?n) segs ?h1"
      using Garbage by simp
    show ?thesis
    proof (cases "(b, n) = (a, ?n)")
      case True
      have "mem (swept P pg freelist locked (a + ?n) segs ?h1) x =
              poisoned_cell P pg (mem h x) (unat x - unat a)"
        if "a \<le> x" "unat x < unat a + unat ?n" for x
      proof -
        from that(2) g(2) have "x < a + ?n" by (simp add: word_less_nat_alt)
        with g(4) al have "mem (swept P pg freelist locked (a + ?n) segs ?h1) x = mem ?h1 x"
          by (rule swept_mem_below)
        also have "\<dots> = poisoned_cell P pg (mem h x) (unat x - unat a)"
          using poison_inside [OF g(1) aln that, of P ?h0] by simp
        finally show ?thesis .
      qed
      with True g(1) aln show ?thesis unfolding sw by simp
    next
      case False
      with Cons.prems(3) Garbage have "(b, n) \<in> set (garbage_runs (a + ?n) segs)" by auto
      from Cons.IH [OF g(4) al this, of ?h1]
      have le: "a + ?n \<le> b" and bd: "unat b + unat n \<le> unat e"
        and an: "page_type pg = kExecutable \<longrightarrow> unat n mod kWordSize = 0"
        and co: "\<And>x. b \<le> x \<Longrightarrow> unat x < unat b + unat n \<Longrightarrow>
            mem (swept P pg freelist locked (a + ?n) segs ?h1) x =
              poisoned_cell P pg (mem ?h1 x) (unat x - unat b)" by auto
      have ab: "a \<le> b" using g(3) le by simp
      have "mem (swept P pg freelist locked (a + ?n) segs ?h1) x =
              poisoned_cell P pg (mem h x) (unat x - unat b)"
        if "b \<le> x" "unat x < unat b + unat n" for x
      proof -
        from le that(1) have "a + ?n \<le> x" by simp
        then have "unat a + unat ?n \<le> unat x" using g(2) by (simp add: word_le_nat_alt)
        then have "mem ?h1 x = mem h x"
          using poison_outside [OF g(1) aln, of x P ?h0] by simp
        with co [OF that] show ?thesis by simp
      qed
      with ab bd an show ?thesis unfolding sw by simp
    qed
  qed
qed


lemma run_object_cells:
  "tiled P page m a (map (Pair False) szs @ rest) e \<Longrightarrow> x \<in> set (obj_addrs a szs) \<Longrightarrow>
   a \<le> x \<and> unat x < unat a + unat (sum_list szs) \<and> (\<exists>s. m x = Tags False s)"
proof (induction szs arbitrary: a)
  case Nil
  then show ?case by simp
next
  case (Cons s szs)
  from Cons.prems(1) have t: "tiled P page m a ((False, s) # map (Pair False) szs @ rest) e"
    by simp
  then have a: "a < e" "m a = Tags False s" "0 < s" "s \<le> e - a"
    and t1: "tiled P page m (a + s) (map (Pair False) szs @ rest) e" by auto
  have us: "unat (a + s) = unat a + unat s" using a(1,4) by (rule step_no_wrap)
  note g = run_geometry [OF Cons.prems(1)]
  note g1 = run_geometry [OF t1]
  have tot: "unat (sum_list (s # szs)) = unat s + unat (sum_list szs)"
    using g(2) g1(2) us by (simp add: add.assoc)
  show ?case
  proof (cases "x = a")
    case True
    moreover have "0 < unat s" using a(3) by (simp add: word_less_nat_alt)
    ultimately show ?thesis using a(2) tot by simp
  next
    case False
    with Cons.prems(2) have "x \<in> set (obj_addrs (a + s) szs)" by simp
    from Cons.IH [OF t1 this]
    have "a + s \<le> x" "unat x < unat (a + s) + unat (sum_list szs)" "\<exists>s. m x = Tags False s"
      by auto
    moreover have "a \<le> a + s" using us by (simp add: word_le_nat_alt)
    ultimately show ?thesis using us tot by auto
  qed
qed

lemma object_addrs_append:
  "object_addrs a (xs @ ys) = object_addrs a xs @ object_addrs (a + sum_list (map snd xs)) ys"
  by (induction xs arbitrary: a) (auto simp: add.assoc)

lemma object_addrs_run: "object_addrs a (map (Pair False) szs) = obj_addrs a szs"
  by (induction szs arbitrary: a) auto

lemma object_classified:
  "tiled P page m a (concat (map seg_objs segs)) e \<Longrightarrow>
   x \<in> set (object_addrs a (concat (map seg_objs segs))) \<Longrightarrow>
   (\<exists>sz. (x, sz) \<in> set (live_objects a segs)) \<or>
   (\<exists>r\<in>set (garbage_runs a segs).
      fst r \<le> x \<and> unat x < unat (fst r) + unat (snd r) \<and> (\<exists>s. m x = Tags False s))"
proof (induction segs arbitrary: a)
  case Nil
  then show ?case by simp
next
  case (Cons sg segs)
  let ?rest = "concat (map seg_objs segs)"
  show ?case
  proof (cases sg)
    case (Live sz0)
    from Cons.prems(1) Live have t: "tiled P page m a ((True, sz0) # ?rest) e" by simp
    note g = live_geometry [OF t]
    show ?thesis
    proof (cases "x = a")
      case True
      with Live show ?thesis by auto
    next
      case False
      with Cons.prems(2) Live have "x \<in> set (object_addrs (a + sz0) ?rest)" by simp
      from Cons.IH [OF g(4) this] Live show ?thesis by auto
    qed
  next
    case (Garbage szs)
    from Cons.prems(1) Garbage have t: "tiled P page m a (map (Pair False) szs @ ?rest) e" by simp
    note g = run_geometry [OF t]
    from Cons.prems(2) Garbage
    have "x \<in> set (obj_addrs a szs) \<or> x \<in> set (object_addrs (a + sum_list szs) ?rest)"
      by (simp add: object_addrs_append object_addrs_run comp_def)
    then show ?thesis
    proof
      assume "x \<in> set (obj_addrs a szs)"
      from run_object_cells [OF t this] Garbage show ?thesis by auto
    next
      assume "x \<in> set (object_addrs (a + sum_list szs) ?rest)"
      from Cons.IH [OF g(4) this] Garbage show ?thesis by auto
    qed
  qed
qed

lemma cell_marked_poisoned: "\<not> cell_marked (poisoned_cell P pg (Tags False s) i)"
  by (simp add: poisoned_cell_def)

text \<open>
  Claim C6. After \<^verbatim>\<open>SweepPage\<close>, no cell at the address of an object of the page is a
  header that reports itself marked: every object that was marked is still a header of
  the same size, with the mark bit cleared, and the address of an unmarked object holds
  either its unmarked header or the bytes that overwrote its run.
\<close>

theorem SweepPage_clears_marks:
  assumes "tiled P page (mem h) (object_start pg) objs (object_end pg)"
    and "\<not> is_image_page pg"
    and "page_type pg = kExecutable \<longrightarrow> word_aligned objs"
  shows "\<exists>in_use pg' h'.
           SweepPage P page pg freelist locked h = Some (Inr (in_use, pg', h')) \<and>
           (\<forall>a\<in>set (object_addrs (object_start pg) objs). \<not> cell_marked (mem h' a)) \<and>
           (\<forall>r\<in>set (live_objects (object_start pg) (segments objs)).
              mem h' (fst r) = Tags False (snd r))"
proof -
  let ?a = "object_start pg"
  let ?segs = "segments objs"
  let ?h' = "swept P pg freelist locked ?a ?segs h"
  have sp: "SweepPage P page pg freelist locked h =
          Some (Inr (live_bytes objs \<noteq> 0, pg\<lparr>used_in_bytes := live_bytes objs\<rparr>, ?h'))"
    using assms by (rule SweepPage_swept)
  have t: "tiled P page (mem h) ?a (concat (map seg_objs ?segs)) (object_end pg)"
    using assms(1) by (simp add: objs_of_segments)
  have al: "page_type pg = kExecutable \<longrightarrow> word_aligned (concat (map seg_objs ?segs))"
    using assms(3) by (simp add: objs_of_segments)
  have live: "mem ?h' (fst r) = Tags False (snd r)" if "r \<in> set (live_objects ?a ?segs)" for r
    using swept_live [OF t al, of "fst r" "snd r" freelist locked h] that by simp
  have "\<not> cell_marked (mem ?h' x)" if "x \<in> set (object_addrs ?a objs)" for x
  proof -
    from that have "x \<in> set (object_addrs ?a (concat (map seg_objs ?segs)))"
      by (simp add: objs_of_segments)
    from object_classified [OF t this] show ?thesis
    proof
      assume "\<exists>sz. (x, sz) \<in> set (live_objects ?a ?segs)"
      then obtain sz where "(x, sz) \<in> set (live_objects ?a ?segs)" ..
      from live [OF this] show ?thesis by simp
    next
      assume "\<exists>r\<in>set (garbage_runs ?a ?segs).
        fst r \<le> x \<and> unat x < unat (fst r) + unat (snd r) \<and> (\<exists>s. mem h x = Tags False s)"
      then obtain r s where r: "r \<in> set (garbage_runs ?a ?segs)"
        and x: "fst r \<le> x" "unat x < unat (fst r) + unat (snd r)" and c: "mem h x = Tags False s"
        by blast
      from swept_garbage [OF t al, of "fst r" "snd r" freelist locked h] r x
      have "mem ?h' x = poisoned_cell P pg (mem h x) (unat x - unat (fst r))" by simp
      with c show ?thesis by (simp add: cell_marked_poisoned)
    qed
  qed
  with sp live show ?thesis by blast
qed

theorem SweepPage_clears_marks_witness:
  "tiled P0 0x40000 (mem h0) (object_start pg0) [(True, 16), (False, 16), (True, 16)] (object_end pg0) \<and>
   \<not> is_image_page pg0 \<and> page_type pg0 = kExecutable \<and>
   word_aligned [(True, 16), (False, 16), (True, 16)] \<and>
   cell_marked (mem h0 0x40020) \<and> cell_marked (mem h0 0x40040) \<and>
   (\<exists>in_use pg' h'.
      SweepPage P0 0x40000 pg0 7 False h0 = Some (Inr (in_use, pg', h')) \<and>
      \<not> cell_marked (mem h' 0x40020) \<and> \<not> cell_marked (mem h' 0x40030) \<and>
      \<not> cell_marked (mem h' 0x40040) \<and>
      mem h' 0x40020 = Tags False 16 \<and> mem h' 0x40040 = Tags False 16)"
proof -
  let ?objs = "[(True, 16), (False, 16), (True, 16 :: uword)]"
  have t: "tiled P0 0x40000 (mem h0) (object_start pg0) ?objs (object_end pg0)"
    by (simp add: P0_def h0_def pg0_def)
  have i: "\<not> is_image_page pg0" by (simp add: pg0_def)
  have a: "word_aligned ?objs" by (simp add: word_aligned_def kWordSize_def)
  have e: "page_type pg0 = kExecutable" by (simp add: pg0_def)
  from a have a': "page_type pg0 = kExecutable \<longrightarrow> word_aligned ?objs" by simp
  have m: "cell_marked (mem h0 0x40020)" "cell_marked (mem h0 0x40040)" by (simp_all add: h0_def)
  have oa: "object_addrs (object_start pg0) ?objs = [0x40020, 0x40030, 0x40040]"
    by (simp add: pg0_def)
  have lo: "live_objects (object_start pg0) (segments ?objs) = [(0x40020, 16), (0x40040, 16)]"
    by (simp add: pg0_def)
  from SweepPage_clears_marks [OF t i a', of 7 False] t i a e m show ?thesis
    unfolding oa lo by auto
qed

lemma sweep_events_run:
  "r \<in> set (garbage_runs a segs) \<Longrightarrow>
   \<exists>pre post. sweep_events P pg freelist locked a segs =
     pre @ poison_events P pg r @ publish_events pg freelist locked r @ post"
proof (induction segs arbitrary: a)
  case Nil
  then show ?case by simp
next
  case (Cons sg segs)
  show ?case
  proof (cases sg)
    case (Live sz)
    with Cons.prems have "r \<in> set (garbage_runs (a + sz) segs)" by simp
    from Cons.IH [OF this] obtain pre post where
      "sweep_events P pg freelist locked (a + sz) segs =
         pre @ poison_events P pg r @ publish_events pg freelist locked r @ post" by blast
    with Live have "sweep_events P pg freelist locked a (sg # segs) =
        ([EvIsMarked a, EvClearMarkBit a] @ pre) @
        poison_events P pg r @ publish_events pg freelist locked r @ post" by simp
    then show ?thesis by blast
  next
    case (Garbage szs)
    show ?thesis
    proof (cases "r = (a, sum_list szs)")
      case True
      with Garbage have "sweep_events P pg freelist locked a (sg # segs) =
          run_reads pg a szs @ poison_events P pg r @ publish_events pg freelist locked r @
          sweep_events P pg freelist locked (a + sum_list szs) segs" by simp
      then show ?thesis by blast
    next
      case False
      with Cons.prems Garbage have "r \<in> set (garbage_runs (a + sum_list szs) segs)" by simp
      from Cons.IH [OF this] obtain pre post where
        "sweep_events P pg freelist locked (a + sum_list szs) segs =
           pre @ poison_events P pg r @ publish_events pg freelist locked r @ post" by blast
      with Garbage have "sweep_events P pg freelist locked a (sg # segs) =
          (run_reads pg a szs @ poison_events P pg (a, sum_list szs) @
           publish_events pg freelist locked (a, sum_list szs) @ pre) @
          poison_events P pg r @ publish_events pg freelist locked r @ post" by simp
      then show ?thesis by blast
    qed
  qed
qed

lemma load_word_filler:
  assumes bd: "unat b + unat n \<le> unat (e :: uword)"
    and k: "k < unat n div kWordSize"
    and co: "\<And>x. b \<le> x \<Longrightarrow> unat x < unat b + unat n \<Longrightarrow>
               m x = Raw (uword_bytes kWordSize v ! ((unat x - unat b) mod kWordSize))"
  shows "load_word m (b + of_nat (kWordSize * k)) = map Raw (uword_bytes kWordSize v)"
proof -
  let ?bs = "uword_bytes kWordSize v"
  have kk: "kWordSize * k + kWordSize \<le> unat n"
  proof -
    from k have "Suc k \<le> unat n div kWordSize" by simp
    then have "kWordSize * Suc k \<le> kWordSize * (unat n div kWordSize)" by (rule mult_le_mono2)
    also have "\<dots> \<le> unat n" by simp
    finally show ?thesis by simp
  qed
  have cell: "m (b + of_nat (kWordSize * k) + of_nat j) = Raw (?bs ! j)" if j: "j < kWordSize" for j
  proof -
    let ?x = "b + of_nat (kWordSize * k + j)"
    have ux: "unat ?x = unat b + (kWordSize * k + j)"
      using bd kk j by (intro unat_plus_nat [where e = e]) simp
    then have "b \<le> ?x" by (simp add: word_le_nat_alt)
    moreover have "unat ?x < unat b + unat n" using ux kk j by simp
    ultimately have "m ?x = Raw (?bs ! ((unat ?x - unat b) mod kWordSize))" by (rule co)
    also have "(unat ?x - unat b) mod kWordSize = j" using ux j by simp
    finally show ?thesis by (simp add: add.assoc)
  qed
  have "load_word m (b + of_nat (kWordSize * k)) = map (\<lambda>j. Raw (?bs ! j)) [0..<kWordSize]"
    unfolding load_word_def
  proof (rule map_cong [OF refl])
    fix j assume "j \<in> set [0..<kWordSize]"
    then have "j < kWordSize" by simp
    then show "m (b + of_nat (kWordSize * k) + of_nat j) = Raw (?bs ! j)" by (rule cell)
  qed
  also have "\<dots> = map Raw (map (nth ?bs) [0..<length ?bs])" by simp
  also have "\<dots> = map Raw ?bs" by (simp only: map_nth)
  finally show ?thesis .
qed

text \<open>
  Claim C7. For every garbage run that \<^verbatim>\<open>SweepPage\<close> finds, the events of overwriting
  it come first and the call of the free-list sink (when the run is handed over) follows
  them at once. On an executable page the overwrite is one store of the break
  instruction filler for every word of the run, the words cover the run, and after the
  sweep every word of the run holds the bytes of the filler. On another page the
  overwrite is one \<^verbatim>\<open>memset\<close> with the zap byte in a debug build, after which every
  byte of the run is the zap byte, and nothing otherwise: the run is as it was.
\<close>

theorem SweepPage_poisons_runs:
  assumes "tiled P page (mem h) (object_start pg) objs (object_end pg)"
    and "\<not> is_image_page pg"
    and "page_type pg = kExecutable \<longrightarrow> word_aligned objs"
  shows "\<exists>in_use pg' h' evs.
           SweepPage P page pg freelist locked h = Some (Inr (in_use, pg', h')) \<and>
           trace h' = trace h @ evs \<and>
           (\<forall>r\<in>set (garbage_runs (object_start pg) (segments objs)).
              (\<exists>pre post. evs = pre @ poison_events P pg r @
                                publish_events pg freelist locked r @ post) \<and>
              (page_type pg = kExecutable \<longrightarrow>
                 kWordSize * (unat (snd r) div kWordSize) = unat (snd r) \<and>
                 (\<forall>k<unat (snd r) div kWordSize.
                    load_word (mem h') (fst r + of_nat (kWordSize * k)) =
                      map Raw (uword_bytes kWordSize (GetBreakInstructionFiller P)))) \<and>
              (page_type pg \<noteq> kExecutable \<and> DEBUG P \<longrightarrow>
                 (\<forall>x. fst r \<le> x \<and> unat x < unat (fst r) + unat (snd r) \<longrightarrow>
                    mem h' x = Raw (kZapByte P))) \<and>
              (page_type pg \<noteq> kExecutable \<and> \<not> DEBUG P \<longrightarrow>
                 (\<forall>x. fst r \<le> x \<and> unat x < unat (fst r) + unat (snd r) \<longrightarrow>
                    mem h' x = mem h x)))"
proof -
  let ?a = "object_start pg"
  let ?segs = "segments objs"
  let ?h' = "swept P pg freelist locked ?a ?segs h"
  let ?evs = "sweep_events P pg freelist locked ?a ?segs"
  have sp: "SweepPage P page pg freelist locked h =
          Some (Inr (live_bytes objs \<noteq> 0, pg\<lparr>used_in_bytes := live_bytes objs\<rparr>, ?h'))"
    using assms by (rule SweepPage_swept)
  have tr: "trace ?h' = trace h @ ?evs" by (rule trace_swept)
  have t: "tiled P page (mem h) ?a (concat (map seg_objs ?segs)) (object_end pg)"
    using assms(1) by (simp add: objs_of_segments)
  have al: "page_type pg = kExecutable \<longrightarrow> word_aligned (concat (map seg_objs ?segs))"
    using assms(3) by (simp add: objs_of_segments)
  have run: "(\<exists>pre post. ?evs = pre @ poison_events P pg r @
                                publish_events pg freelist locked r @ post) \<and>
              (page_type pg = kExecutable \<longrightarrow>
                 kWordSize * (unat (snd r) div kWordSize) = unat (snd r) \<and>
                 (\<forall>k<unat (snd r) div kWordSize.
                    load_word (mem ?h') (fst r + of_nat (kWordSize * k)) =
                      map Raw (uword_bytes kWordSize (GetBreakInstructionFiller P)))) \<and>
              (page_type pg \<noteq> kExecutable \<and> DEBUG P \<longrightarrow>
                 (\<forall>x. fst r \<le> x \<and> unat x < unat (fst r) + unat (snd r) \<longrightarrow>
                    mem ?h' x = Raw (kZapByte P))) \<and>
              (page_type pg \<noteq> kExecutable \<and> \<not> DEBUG P \<longrightarrow>
                 (\<forall>x. fst r \<le> x \<and> unat x < unat (fst r) + unat (snd r) \<longrightarrow>
                    mem ?h' x = mem h x))"
    if r: "r \<in> set (garbage_runs ?a ?segs)" for r
  proof -
    from swept_garbage [OF t al, of "fst r" "snd r" freelist locked h] r
    have bd: "unat (fst r) + unat (snd r) \<le> unat (object_end pg)"
      and an: "page_type pg = kExecutable \<longrightarrow> unat (snd r) mod kWordSize = 0"
      and co: "\<And>x. fst r \<le> x \<Longrightarrow> unat x < unat (fst r) + unat (snd r) \<Longrightarrow>
          mem ?h' x = poisoned_cell P pg (mem h x) (unat x - unat (fst r))" by auto
    have ev: "\<exists>pre post. ?evs = pre @ poison_events P pg r @
                publish_events pg freelist locked r @ post"
      using r by (rule sweep_events_run)
    have ex: "kWordSize * (unat (snd r) div kWordSize) = unat (snd r) \<and>
        (\<forall>k<unat (snd r) div kWordSize.
           load_word (mem ?h') (fst r + of_nat (kWordSize * k)) =
             map Raw (uword_bytes kWordSize (GetBreakInstructionFiller P)))"
      if x: "page_type pg = kExecutable"
    proof (intro conjI allI impI)
      show "kWordSize * (unat (snd r) div kWordSize) = unat (snd r)" using an x by auto
    next
      fix k assume k: "k < unat (snd r) div kWordSize"
      show "load_word (mem ?h') (fst r + of_nat (kWordSize * k)) =
             map Raw (uword_bytes kWordSize (GetBreakInstructionFiller P))"
        using bd k
      proof (rule load_word_filler)
        fix y assume "fst r \<le> y" "unat y < unat (fst r) + unat (snd r)"
        from co [OF this] x
        show "mem ?h' y = Raw (uword_bytes kWordSize (GetBreakInstructionFiller P) !
            ((unat y - unat (fst r)) mod kWordSize))"
          by (simp add: poisoned_cell_def)
      qed
    qed
    have zap: "mem ?h' x = Raw (kZapByte P)"
      if "page_type pg \<noteq> kExecutable" "DEBUG P" "fst r \<le> x" "unat x < unat (fst r) + unat (snd r)"
      for x
      using co [OF that(3,4)] that(1,2) by (simp add: poisoned_cell_def)
    have same: "mem ?h' x = mem h x"
      if "page_type pg \<noteq> kExecutable" "\<not> DEBUG P" "fst r \<le> x" "unat x < unat (fst r) + unat (snd r)"
      for x
      using co [OF that(3,4)] that(1,2) by (simp add: poisoned_cell_def)
    from ev ex zap same show ?thesis by blast
  qed
  from run have "\<forall>r\<in>set (garbage_runs ?a ?segs).
      (\<exists>pre post. ?evs = pre @ poison_events P pg r @
                        publish_events pg freelist locked r @ post) \<and>
      (page_type pg = kExecutable \<longrightarrow>
         kWordSize * (unat (snd r) div kWordSize) = unat (snd r) \<and>
         (\<forall>k<unat (snd r) div kWordSize.
            load_word (mem ?h') (fst r + of_nat (kWordSize * k)) =
              map Raw (uword_bytes kWordSize (GetBreakInstructionFiller P)))) \<and>
      (page_type pg \<noteq> kExecutable \<and> DEBUG P \<longrightarrow>
         (\<forall>x. fst r \<le> x \<and> unat x < unat (fst r) + unat (snd r) \<longrightarrow>
            mem ?h' x = Raw (kZapByte P))) \<and>
      (page_type pg \<noteq> kExecutable \<and> \<not> DEBUG P \<longrightarrow>
         (\<forall>x. fst r \<le> x \<and> unat x < unat (fst r) + unat (snd r) \<longrightarrow>
            mem ?h' x = mem h x))" ..
  with sp tr show ?thesis
    by (intro exI [of _ "live_bytes objs \<noteq> 0"] exI [of _ "pg\<lparr>used_in_bytes := live_bytes objs\<rparr>"]
        exI [of _ ?h'] exI [of _ ?evs]) (intro conjI; assumption)
qed


theorem SweepPage_poisons_runs_witness:
  "tiled P0 0x40000 (mem h0) (object_start pg0) [(True, 16), (False, 16), (True, 16)] (object_end pg0) \<and>
   \<not> is_image_page pg0 \<and> page_type pg0 = kExecutable \<and>
   word_aligned [(True, 16), (False, 16), (True, 16)] \<and>
   (0x40030, 16) \<in> set (garbage_runs (object_start pg0) (segments [(True, 16), (False, 16), (True, 16)])) \<and>
   (\<exists>in_use pg' h' pre post.
      SweepPage P0 0x40000 pg0 7 False h0 = Some (Inr (in_use, pg', h')) \<and>
      trace h' = pre @ [EvStoreWord 0x40030 0xCCCCCCCCCCCCCCCC, EvStoreWord 0x40038 0xCCCCCCCCCCCCCCCC,
                        EvFree 7 0x40030 16] @ post \<and>
      load_word (mem h') 0x40030 = map Raw (uword_bytes kWordSize 0xCCCCCCCCCCCCCCCC) \<and>
      load_word (mem h') 0x40038 = map Raw (uword_bytes kWordSize 0xCCCCCCCCCCCCCCCC)) \<and>
   tiled Pd 0x40000 (mem h1) (object_start pg1)
     [(True, 16), (False, 16), (False, 32), (True, 16)] (object_end pg1) \<and>
   \<not> is_image_page pg1 \<and> page_type pg1 \<noteq> kExecutable \<and> DEBUG Pd \<and> \<not> DEBUG P0 \<and>
   (0x40030, 48) \<in> set (garbage_runs (object_start pg1)
      (segments [(True, 16), (False, 16), (False, 32), (True, 16)])) \<and>
   (\<exists>in_use pg' h' pre post.
      SweepPage Pd 0x40000 pg1 7 False h1 = Some (Inr (in_use, pg', h')) \<and>
      trace h' = pre @ [EvMemset 0x40030 0xEA 48, EvFree 7 0x40030 48] @ post \<and>
      mem h' 0x40030 = Raw 0xEA \<and> mem h' 0x4005F = Raw 0xEA) \<and>
   (\<exists>in_use pg' h' pre post.
      SweepPage P0 0x40000 pg1 7 False h1 = Some (Inr (in_use, pg', h')) \<and>
      trace h' = pre @ [EvFree 7 0x40030 48] @ post \<and>
      mem h' 0x40030 = Tags False 16 \<and> mem h' 0x4005F = Raw 0)"
proof -
  let ?objs0 = "[(True, 16), (False, 16), (True, 16 :: uword)]"
  let ?objs1 = "[(True, 16), (False, 16), (False, 32), (True, 16 :: uword)]"
  have t0: "tiled P0 0x40000 (mem h0) (object_start pg0) ?objs0 (object_end pg0)"
    by (simp add: P0_def h0_def pg0_def)
  have i0: "\<not> is_image_page pg0" by (simp add: pg0_def)
  have a0: "word_aligned ?objs0" by (simp add: word_aligned_def kWordSize_def)
  have e0: "page_type pg0 = kExecutable" by (simp add: pg0_def)
  from a0 have a0': "page_type pg0 = kExecutable \<longrightarrow> word_aligned ?objs0" by simp
  have r0: "garbage_runs (object_start pg0) (segments ?objs0) = [(0x40030, 16)]"
    by (simp add: pg0_def)
  have pe0: "poison_events P0 pg0 (0x40030, 16) @ publish_events pg0 7 False (0x40030, 16) @ post
      = [EvStoreWord 0x40030 0xCCCCCCCCCCCCCCCC, EvStoreWord 0x40038 0xCCCCCCCCCCCCCCCC,
         EvFree 7 0x40030 16] @ post" for post
    by (simp add: poison_events_def publish_events_def spans_object_area_def sink_call_def
        pg0_def P0_def kWordSize_def upt_rec)
  from SweepPage_poisons_runs [OF t0 i0 a0', of 7 False] r0 e0
  obtain in_use0 pg0' h0' pre0 post0 where
    s0: "SweepPage P0 0x40000 pg0 7 False h0 = Some (Inr (in_use0, pg0', h0'))"
    and tr0: "trace h0' = trace h0 @ pre0 @ poison_events P0 pg0 (0x40030, 16) @
         publish_events pg0 7 False (0x40030, 16) @ post0"
    and lw0: "\<forall>k<unat (16 :: uword) div kWordSize.
         load_word (mem h0') (0x40030 + of_nat (kWordSize * k)) =
           map Raw (uword_bytes kWordSize (GetBreakInstructionFiller P0))"
    by auto
  from lw0 [rule_format, of 0] lw0 [rule_format, of 1]
  have l0: "load_word (mem h0') 0x40030 = map Raw (uword_bytes kWordSize 0xCCCCCCCCCCCCCCCC)"
    "load_word (mem h0') 0x40038 = map Raw (uword_bytes kWordSize 0xCCCCCCCCCCCCCCCC)"
    by (simp_all add: kWordSize_def P0_def)
  have c0: "\<exists>in_use pg' h' pre post.
      SweepPage P0 0x40000 pg0 7 False h0 = Some (Inr (in_use, pg', h')) \<and>
      trace h' = pre @ [EvStoreWord 0x40030 0xCCCCCCCCCCCCCCCC, EvStoreWord 0x40038 0xCCCCCCCCCCCCCCCC,
                        EvFree 7 0x40030 16] @ post \<and>
      load_word (mem h') 0x40030 = map Raw (uword_bytes kWordSize 0xCCCCCCCCCCCCCCCC) \<and>
      load_word (mem h') 0x40038 = map Raw (uword_bytes kWordSize 0xCCCCCCCCCCCCCCCC)"
    using s0 tr0 l0 unfolding pe0 by (intro exI [of _ "trace h0 @ pre0"] exI conjI) auto
  have t1: "tiled Pd 0x40000 (mem h1) (object_start pg1) ?objs1 (object_end pg1)"
    by (simp add: Pd_def P0_def h1_def pg1_def)
  have t1': "tiled P0 0x40000 (mem h1) (object_start pg1) ?objs1 (object_end pg1)"
    by (simp add: P0_def h1_def pg1_def)
  have i1: "\<not> is_image_page pg1" by (simp add: pg1_def)
  have e1: "page_type pg1 \<noteq> kExecutable" by (simp add: pg1_def)
  then have a1: "page_type pg1 = kExecutable \<longrightarrow> word_aligned ?objs1" by simp
  have d: "DEBUG Pd" "\<not> DEBUG P0" by (simp_all add: Pd_def P0_def)
  have r1: "garbage_runs (object_start pg1) (segments ?objs1) = [(0x40030, 48)]"
    by (simp add: pg1_def)
  have ped: "poison_events Pd pg1 (0x40030, 48) @ publish_events pg1 7 False (0x40030, 48) @ post
      = [EvMemset 0x40030 0xEA 48, EvFree 7 0x40030 48] @ post" for post
    by (simp add: poison_events_def publish_events_def spans_object_area_def sink_call_def
        pg1_def Pd_def P0_def)
  have pe1: "poison_events P0 pg1 (0x40030, 48) @ publish_events pg1 7 False (0x40030, 48) @ post
      = [EvFree 7 0x40030 48] @ post" for post
    by (simp add: poison_events_def publish_events_def spans_object_area_def sink_call_def
        pg1_def P0_def)
  from SweepPage_poisons_runs [OF t1 i1 a1, of 7 False] r1 e1 d
  obtain in_used pgd' hd' pred postd where
    sd: "SweepPage Pd 0x40000 pg1 7 False h1 = Some (Inr (in_used, pgd', hd'))"
    and trd: "trace hd' = trace h1 @ pred @ poison_events Pd pg1 (0x40030, 48) @
         publish_events pg1 7 False (0x40030, 48) @ postd"
    and zd: "\<forall>x. 0x40030 \<le> x \<and> unat x < unat (0x40030 :: uword) + unat (48 :: uword) \<longrightarrow>
         mem hd' x = Raw (kZapByte Pd)"
    by auto
  from zd [rule_format, of "0x40030"] zd [rule_format, of "0x4005F"]
  have ld: "mem hd' 0x40030 = Raw 0xEA" "mem hd' 0x4005F = Raw 0xEA"
    by (simp_all add: Pd_def P0_def)
  have cd: "\<exists>in_use pg' h' pre post.
      SweepPage Pd 0x40000 pg1 7 False h1 = Some (Inr (in_use, pg', h')) \<and>
      trace h' = pre @ [EvMemset 0x40030 0xEA 48, EvFree 7 0x40030 48] @ post \<and>
      mem h' 0x40030 = Raw 0xEA \<and> mem h' 0x4005F = Raw 0xEA"
    using sd trd ld unfolding ped by (intro exI [of _ "trace h1 @ pred"] exI conjI) auto
  from SweepPage_poisons_runs [OF t1' i1 a1, of 7 False] r1 e1 d
  obtain in_use1 pg1' h1' pre1 post1 where
    s1: "SweepPage P0 0x40000 pg1 7 False h1 = Some (Inr (in_use1, pg1', h1'))"
    and tr1: "trace h1' = trace h1 @ pre1 @ poison_events P0 pg1 (0x40030, 48) @
         publish_events pg1 7 False (0x40030, 48) @ post1"
    and z1: "\<forall>x. 0x40030 \<le> x \<and> unat x < unat (0x40030 :: uword) + unat (48 :: uword) \<longrightarrow>
         mem h1' x = mem h1 x"
    by auto
  from z1 [rule_format, of "0x40030"] z1 [rule_format, of "0x4005F"]
  have l1: "mem h1' 0x40030 = Tags False 16" "mem h1' 0x4005F = Raw 0"
    by (simp_all add: h1_def)
  have c1: "\<exists>in_use pg' h' pre post.
      SweepPage P0 0x40000 pg1 7 False h1 = Some (Inr (in_use, pg', h')) \<and>
      trace h' = pre @ [EvFree 7 0x40030 48] @ post \<and>
      mem h' 0x40030 = Tags False 16 \<and> mem h' 0x4005F = Raw 0"
    using s1 tr1 l1 unfolding pe1 by (intro exI [of _ "trace h1 @ pre1"] exI conjI) auto
  from t0 i0 e0 a0 r0 c0 t1 i1 e1 d r1 cd c1 show ?thesis by simp
qed

lemma mark_reads_Nil [simp]: "mark_reads b [] = 0"
  by (simp add: mark_reads_def)

lemma mark_reads_Cons [simp]:
  "mark_reads b (ev # evs) = (if ev = EvIsMarked b then 1 else 0) + mark_reads b evs"
  by (simp add: mark_reads_def)

lemma mark_reads_append [simp]: "mark_reads b (xs @ ys) = mark_reads b xs + mark_reads b ys"
  by (simp add: mark_reads_def)

lemma mark_reads_addrs: "b \<notin> set xs \<Longrightarrow> mark_reads b (map EvIsMarked xs) = 0"
  by (induction xs) auto

lemma mark_reads_poison_events [simp]: "mark_reads b (poison_events P pg r) = 0"
  by (simp add: poison_events_def mark_reads_def)

lemma mark_reads_publish_events [simp]: "mark_reads b (publish_events pg freelist locked r) = 0"
  by (simp add: publish_events_def sink_call_def)

lemma garbage_run_geometry:
  assumes "tiled P page m a (concat (map seg_objs segs)) e"
    and "r \<in> set (garbage_runs a segs)"
  shows "a \<le> fst r" and "unat (fst r + snd r) = unat (fst r) + unat (snd r)"
proof -
  let ?pg = "\<lparr>page_type = kData, is_image_page = False, object_start = 0, object_end = 0,
              used_in_bytes = 0, next_page = 0\<rparr>"
  have "page_type ?pg = kExecutable \<longrightarrow> word_aligned (concat (map seg_objs segs))" by simp
  from swept_garbage [OF assms(1) this, of "fst r" "snd r" 0 False "\<lparr>mem = m, trace = []\<rparr>"] assms(2)
  have le: "a \<le> fst r" and bd: "unat (fst r) + unat (snd r) \<le> unat e" by auto
  show "a \<le> fst r" by (rule le)
  show "unat (fst r + snd r) = unat (fst r) + unat (snd r)"
    using bd unat_lt64 [of e] by (subst unat_add_lem [THEN iffD1]) auto
qed

lemma run_reads_count:
  assumes t: "tiled P page m a (map (Pair False) szs @ rest) (object_end pg)"
    and le: "a + sum_list szs \<le> b" and lt: "b < object_end pg"
  shows "mark_reads b (run_reads pg a szs) = (if a + sum_list szs = b then 1 else 0)"
proof -
  note g = run_geometry [OF t]
  have "b \<notin> set (obj_addrs a szs)"
  proof
    assume "b \<in> set (obj_addrs a szs)"
    from run_object_cells [OF t this] have "unat b < unat a + unat (sum_list szs)" by simp
    with le g(2) show False by (simp add: word_le_nat_alt)
  qed
  then have "mark_reads b (map EvIsMarked (obj_addrs a szs)) = 0" by (rule mark_reads_addrs)
  with lt show ?thesis by (auto simp: run_reads_def)
qed

lemma mark_reads_below:
  "tiled P page m a (concat (map seg_objs segs)) (object_end pg) \<Longrightarrow> b < a \<Longrightarrow>
   mark_reads b (sweep_events P pg freelist locked a segs) = 0"
proof (induction segs arbitrary: a)
  case Nil
  then show ?case by simp
next
  case (Cons sg segs)
  let ?rest = "concat (map seg_objs segs)"
  show ?case
  proof (cases sg)
    case (Live sz)
    from Cons.prems(1) Live have t: "tiled P page m a ((True, sz) # ?rest) (object_end pg)" by simp
    note g = live_geometry [OF t]
    have "b < a + sz" using Cons.prems(2) g(3) by simp
    from Cons.IH [OF g(4) this] Cons.prems(2) Live show ?thesis by auto
  next
    case (Garbage szs)
    from Cons.prems(1) Garbage
    have t: "tiled P page m a (map (Pair False) szs @ ?rest) (object_end pg)" by simp
    note g = run_geometry [OF t]
    have lt: "b < a + sum_list szs" using Cons.prems(2) g(3) by simp
    have "b \<notin> set (obj_addrs a szs)"
    proof
      assume "b \<in> set (obj_addrs a szs)"
      from run_object_cells [OF t this] Cons.prems(2) show False by auto
    qed
    then have "mark_reads b (map EvIsMarked (obj_addrs a szs)) = 0" by (rule mark_reads_addrs)
    then have "mark_reads b (run_reads pg a szs) = 0" using lt by (auto simp: run_reads_def)
    with Cons.IH [OF g(4) lt] Garbage show ?thesis by simp
  qed
qed

lemma live_object_geometry:
  assumes "tiled P page m a (concat (map seg_objs segs)) e"
    and "(b, sz) \<in> set (live_objects a segs)"
  shows "a \<le> b" and "b < e"
proof -
  let ?pg = "\<lparr>page_type = kData, is_image_page = False, object_start = 0, object_end = 0,
              used_in_bytes = 0, next_page = 0\<rparr>"
  have "page_type ?pg = kExecutable \<longrightarrow> word_aligned (concat (map seg_objs segs))" by simp
  from swept_live [OF assms(1) this assms(2), of 0 False "\<lparr>mem = m, trace = []\<rparr>"]
  have le: "a \<le> b" and bd: "unat b + unat sz \<le> unat e"
    by auto
  show "a \<le> b" by (rule le)
  have "0 < unat sz" using assms
  proof (induction segs arbitrary: a)
    case Nil
    then show ?case by simp
  next
    case (Cons sg segs)
    show ?case
    proof (cases sg)
      case (Live sz0)
      from Cons.prems(1) Live
      have t: "tiled P page m a ((True, sz0) # concat (map seg_objs segs)) e" by simp
      then have "0 < sz0" by simp
      with Cons.IH [OF live_geometry(4) [OF t]] Cons.prems(2) Live show ?thesis
        by (auto simp: word_less_nat_alt)
    next
      case (Garbage szs)
      from Cons.prems(1) Garbage
      have t: "tiled P page m a (map (Pair False) szs @ concat (map seg_objs segs)) e" by simp
      from Cons.IH [OF run_geometry(4) [OF t]] Cons.prems(2) Garbage show ?thesis by simp
    qed
  qed
  with bd show "b < e" by (simp add: word_less_nat_alt)
qed

lemma mark_reads_live:
  "tiled P page m a (concat (map seg_objs segs)) (object_end pg) \<Longrightarrow> maximal segs \<Longrightarrow>
   (b, sz) \<in> set (live_objects a segs) \<Longrightarrow>
   mark_reads b (sweep_events P pg freelist locked a segs) =
     (if \<exists>r\<in>set (garbage_runs a segs). fst r + snd r = b then 2 else 1)"
proof (induction segs arbitrary: a)
  case Nil
  then show ?case by simp
next
  case (Cons sg segs)
  let ?e = "object_end pg"
  let ?rest = "concat (map seg_objs segs)"
  show ?case
  proof (cases sg)
    case (Live sz0)
    from Cons.prems(1) Live have t: "tiled P page m a ((True, sz0) # ?rest) ?e" by simp
    note g = live_geometry [OF t]
    have mx: "maximal segs" using Cons.prems(2) Live by simp
    have ends: "fst r + snd r \<noteq> a" if "r \<in> set (garbage_runs (a + sz0) segs)" for r
    proof -
      from garbage_run_geometry [OF g(4) that]
      have "unat (a + sz0) \<le> unat (fst r + snd r)" by (simp add: word_le_nat_alt)
      with g(3) show ?thesis by (auto simp: word_less_nat_alt)
    qed
    show ?thesis
    proof (cases "b = a")
      case True
      have "mark_reads a (sweep_events P pg freelist locked (a + sz0) segs) = 0"
        using g(4) g(3) by (rule mark_reads_below)
      with True Live ends show ?thesis by auto
    next
      case False
      with Cons.prems(3) Live have in_tail: "(b, sz) \<in> set (live_objects (a + sz0) segs)" by auto
      from Cons.IH [OF g(4) mx in_tail] False Live show ?thesis by auto
    qed
  next
    case (Garbage szs)
    let ?n = "sum_list szs"
    from Cons.prems(1) Garbage have t: "tiled P page m a (map (Pair False) szs @ ?rest) ?e" by simp
    note g = run_geometry [OF t]
    have mx: "maximal segs" using Cons.prems(2) Garbage by simp
    from Cons.prems(3) Garbage have in_tail: "(b, sz) \<in> set (live_objects (a + ?n) segs)" by simp
    note lg = live_object_geometry [OF g(4) in_tail]
    have rr: "mark_reads b (run_reads pg a szs) = (if a + ?n = b then 1 else 0)"
      using t lg by (rule run_reads_count)
    have ih: "mark_reads b (sweep_events P pg freelist locked (a + ?n) segs) =
        (if \<exists>r\<in>set (garbage_runs (a + ?n) segs). fst r + snd r = b then 2 else 1)"
      using g(4) mx in_tail by (rule Cons.IH)
    show ?thesis
    proof (cases "a + ?n = b")
      case True
      have "fst r + snd r \<noteq> b" if r: "r \<in> set (garbage_runs (a + ?n) segs)" for r
      proof (cases segs rule: maximal.cases)
        case 1
        with r show ?thesis by simp
      next
        case (2 sz' segs')
        with g(4) have t': "tiled P page m (a + ?n) ((True, sz') # concat (map seg_objs segs')) ?e"
          by simp
        note g' = live_geometry [OF t']
        from r 2 have "r \<in> set (garbage_runs (a + ?n + sz') segs')" by simp
        from garbage_run_geometry [OF g'(4) this]
        have "unat (a + ?n + sz') \<le> unat (fst r + snd r)" by (simp add: word_le_nat_alt)
        with g'(3) True show ?thesis by (auto simp: word_less_nat_alt)
      next
        case (3 szs' segs')
        with Cons.prems(2) Garbage show ?thesis by simp
      qed
      with ih True rr Garbage show ?thesis by auto
    next
      case False
      with ih rr Garbage show ?thesis by auto
    qed
  qed
qed

text \<open>
  Claim C9, as amended. \<^verbatim>\<open>SweepPage\<close> leaves every byte of a marked object as it was,
  but for the header, where the mark bit is cleared and the size is kept. The mark bit
  of a marked object is read once when the scan reaches the object, and once more
  before that when the object is the one that ends a garbage run: twice, not once.
\<close>

theorem SweepPage_live_objects_untouched:
  assumes "tiled P page (mem h) (object_start pg) objs (object_end pg)"
    and "\<not> is_image_page pg"
    and "page_type pg = kExecutable \<longrightarrow> word_aligned objs"
  shows "\<exists>in_use pg' h' evs.
           SweepPage P page pg freelist locked h = Some (Inr (in_use, pg', h')) \<and>
           trace h' = trace h @ evs \<and>
           (\<forall>r\<in>set (live_objects (object_start pg) (segments objs)).
              mem h' (fst r) = Tags False (snd r) \<and>
              (\<forall>x. fst r < x \<and> unat x < unat (fst r) + unat (snd r) \<longrightarrow> mem h' x = mem h x) \<and>
              mark_reads (fst r) evs =
                (if \<exists>g\<in>set (garbage_runs (object_start pg) (segments objs)).
                      fst g + snd g = fst r
                 then 2 else 1))"
proof -
  let ?a = "object_start pg"
  let ?segs = "segments objs"
  let ?h' = "swept P pg freelist locked ?a ?segs h"
  let ?evs = "sweep_events P pg freelist locked ?a ?segs"
  have sp: "SweepPage P page pg freelist locked h =
          Some (Inr (live_bytes objs \<noteq> 0, pg\<lparr>used_in_bytes := live_bytes objs\<rparr>, ?h'))"
    using assms by (rule SweepPage_swept)
  have tr: "trace ?h' = trace h @ ?evs" by (rule trace_swept)
  have t: "tiled P page (mem h) ?a (concat (map seg_objs ?segs)) (object_end pg)"
    using assms(1) by (simp add: objs_of_segments)
  have al: "page_type pg = kExecutable \<longrightarrow> word_aligned (concat (map seg_objs ?segs))"
    using assms(3) by (simp add: objs_of_segments)
  have live: "mem ?h' (fst r) = Tags False (snd r) \<and>
      (\<forall>x. fst r < x \<and> unat x < unat (fst r) + unat (snd r) \<longrightarrow> mem ?h' x = mem h x) \<and>
      mark_reads (fst r) ?evs =
        (if \<exists>g\<in>set (garbage_runs ?a ?segs). fst g + snd g = fst r then 2 else 1)"
    if r: "r \<in> set (live_objects ?a ?segs)" for r
  proof -
    from r have r': "(fst r, snd r) \<in> set (live_objects ?a ?segs)" by simp
    from swept_live [OF t al r', of freelist locked h]
    have "mem ?h' (fst r) = Tags False (snd r)"
      and "\<forall>x. fst r < x \<and> unat x < unat (fst r) + unat (snd r) \<longrightarrow> mem ?h' x = mem h x"
      by auto
    moreover have "mark_reads (fst r) ?evs =
        (if \<exists>g\<in>set (garbage_runs ?a ?segs). fst g + snd g = fst r then 2 else 1)"
      using t maximal_segments r' by (rule mark_reads_live)
    ultimately show ?thesis by simp
  qed
  then have "\<forall>r\<in>set (live_objects ?a ?segs).
      mem ?h' (fst r) = Tags False (snd r) \<and>
      (\<forall>x. fst r < x \<and> unat x < unat (fst r) + unat (snd r) \<longrightarrow> mem ?h' x = mem h x) \<and>
      mark_reads (fst r) ?evs =
        (if \<exists>g\<in>set (garbage_runs ?a ?segs). fst g + snd g = fst r then 2 else 1)" ..
  with sp tr show ?thesis
    by (intro exI [of _ "live_bytes objs \<noteq> 0"] exI [of _ "pg\<lparr>used_in_bytes := live_bytes objs\<rparr>"]
        exI [of _ ?h'] exI [of _ ?evs]) (intro conjI; assumption)
qed


theorem SweepPage_live_objects_untouched_witness:
  "tiled P0 0x40000 (mem h1) (object_start pg1)
     [(True, 16), (False, 16), (False, 32), (True, 16)] (object_end pg1) \<and>
   \<not> is_image_page pg1 \<and> page_type pg1 \<noteq> kExecutable \<and>
   live_objects (object_start pg1) (segments [(True, 16), (False, 16), (False, 32), (True, 16)])
     = [(0x40020, 16), (0x40060, 16)] \<and>
   garbage_runs (object_start pg1) (segments [(True, 16), (False, 16), (False, 32), (True, 16)])
     = [(0x40030, 48)] \<and>
   (\<exists>in_use pg' h'.
      SweepPage P0 0x40000 pg1 7 False h1 = Some (Inr (in_use, pg', h')) \<and>
      mem h' 0x40020 = Tags False 16 \<and> mem h' 0x40021 = mem h1 0x40021 \<and>
      mem h' 0x40060 = Tags False 16 \<and> mem h' 0x4006F = mem h1 0x4006F \<and>
      mark_reads 0x40020 (trace h') = 1 \<and> mark_reads 0x40060 (trace h') = 2)"
proof -
  let ?objs = "[(True, 16), (False, 16), (False, 32), (True, 16 :: uword)]"
  have t: "tiled P0 0x40000 (mem h1) (object_start pg1) ?objs (object_end pg1)"
    by (simp add: P0_def h1_def pg1_def)
  have i: "\<not> is_image_page pg1" by (simp add: pg1_def)
  have e: "page_type pg1 \<noteq> kExecutable" by (simp add: pg1_def)
  then have a: "page_type pg1 = kExecutable \<longrightarrow> word_aligned ?objs" by simp
  have lo: "live_objects (object_start pg1) (segments ?objs) = [(0x40020, 16), (0x40060, 16)]"
    by (simp add: pg1_def)
  have gr: "garbage_runs (object_start pg1) (segments ?objs) = [(0x40030, 48)]"
    by (simp add: pg1_def)
  have tr: "trace h1 = []" by (simp add: h1_def)
  from SweepPage_live_objects_untouched [OF t i a, of 7 False]
  obtain in_use pg' h' evs where
    sp: "SweepPage P0 0x40000 pg1 7 False h1 = Some (Inr (in_use, pg', h'))"
    and ev: "trace h' = trace h1 @ evs"
    and l1: "mem h' 0x40020 = Tags False 16"
      "\<forall>x. 0x40020 < x \<and> unat x < unat (0x40020 :: uword) + unat (16 :: uword) \<longrightarrow>
          mem h' x = mem h1 x"
      "mark_reads 0x40020 evs = 1"
    and l2: "mem h' 0x40060 = Tags False 16"
      "\<forall>x. 0x40060 < x \<and> unat x < unat (0x40060 :: uword) + unat (16 :: uword) \<longrightarrow>
          mem h' x = mem h1 x"
      "mark_reads 0x40060 evs = 2"
    unfolding lo gr by auto
  from l1(2) [rule_format, of "0x40021"] l2(2) [rule_format, of "0x4006F"]
  have "mem h' 0x40021 = mem h1 0x40021" "mem h' 0x4006F = mem h1 0x4006F" by simp_all
  with t i e lo gr sp ev tr l1(1,3) l2(1,3) show ?thesis by auto
qed

text \<open>
  Claim C9 as stated fails: on a page of one unmarked object followed by one marked
  object, the mark bit of the marked object is read twice, first by the loop that
  extends the garbage run and then by the outer loop.
\<close>

theorem SweepPage_mark_read_twice:
  "mem h3 0x40030 = Tags True 16 \<and>
   (case SweepPage P0 0x40000 pg2 7 False h3 of
      Some (Inr (in_use, pg', h')) \<Rightarrow> mark_reads 0x40030 (trace h')
    | _ \<Rightarrow> 0) = 2"
proof -
  let ?objs = "[(False, 16), (True, 16 :: uword)]"
  have t: "tiled P0 0x40000 (mem h3) (object_start pg2) ?objs (object_end pg2)"
    by (simp add: P0_def h3_def pg2_def)
  have i: "\<not> is_image_page pg2" by (simp add: pg2_def)
  have a: "page_type pg2 = kExecutable \<longrightarrow> word_aligned ?objs" by (simp add: pg2_def)
  have "mark_reads 0x40030 (trace (swept P0 pg2 7 False (object_start pg2) (segments ?objs) h3)) = 2"
    by (subst trace_swept) (simp add: run_reads_def pg2_def h3_def)
  moreover have "mem h3 0x40030 = Tags True 16" by (simp add: h3_def)
  ultimately show ?thesis
    using SweepPage_swept(2) [OF t i a, of 7 False] by simp
qed

lemma no_wrap_unat: "(c :: uword) \<le> c + sz \<Longrightarrow> unat (c + sz) = unat c + unat sz"
  using no_olen_add_nat [of c sz] unat_add_lem [of c sz] by simp

lemma fillers_frame:
  "unmarked_fillers m a szs e \<Longrightarrow> (\<And>x. a \<le> x \<Longrightarrow> m' x = m x) \<Longrightarrow> unmarked_fillers m' a szs e"
proof (induction szs arbitrary: a)
  case Nil
  then show ?case by simp
next
  case (Cons sz szs)
  from Cons.prems(1) have a: "a < e" "m a = Tags False sz" "0 < sz" "a \<le> a + sz"
    and t: "unmarked_fillers m (a + sz) szs e" by auto
  have "unmarked_fillers m' (a + sz) szs e"
    using t
  proof (rule Cons.IH)
    fix x assume "a + sz \<le> x"
    with a(4) have "a \<le> x" by simp
    then show "m' x = m x" by (rule Cons.prems(2))
  qed
  moreover have "m' a = Tags False sz" using Cons.prems(2) [of a] a(2) by simp
  ultimately show ?case using a by simp
qed

lemma verify_fillers_ok:
  "unmarked_fillers (mem h) c szs e \<Longrightarrow>
   \<exists>h'. verify_fillers P e c h = Some (Inr h') \<and> (\<forall>x. x < c \<longrightarrow> mem h' x = mem h x)"
proof (induction szs arbitrary: c h)
  case Nil
  then have "\<not> c < e" by (simp add: not_less)
  then have "verify_fillers P e c h = Some (Inr h)" by (subst verify_fillers.simps) simp
  then show ?case by simp
next
  case (Cons sz szs)
  let ?h1 = "h\<lparr>trace := trace h @ [EvIsMarked c]\<rparr>"
  let ?h2 = "Memset ?h1 c (kZapByte P) sz"
  from Cons.prems have a: "c < e" "mem h c = Tags False sz" "0 < sz" "c \<le> c + sz"
    and t: "unmarked_fillers (mem h) (c + sz) szs e" by auto
  have u: "unat (c + sz) = unat c + unat sz" using a(4) by (rule no_wrap_unat)
  have out: "mem ?h2 x = mem h x" if "x < c \<or> c + sz \<le> x" for x
  proof -
    have "write_bytes (mem h) c (replicate (unat sz) (kZapByte P)) x = mem h x"
      using that u by (intro write_bytes_outside [where e = "c + sz"]) (auto simp: word_le_nat_alt)
    then show ?thesis by (simp add: Memset_def)
  qed
  have "unmarked_fillers (mem ?h2) (c + sz) szs e"
    using t by (rule fillers_frame) (simp add: out)
  from Cons.IH [OF this] obtain h' where
    v: "verify_fillers P e (c + sz) ?h2 = Some (Inr h')"
    and f: "\<forall>x. x < c + sz \<longrightarrow> mem h' x = mem ?h2 x" by blast
  have "verify_fillers P e c h = verify_fillers P e (c + sz) ?h2"
    using a by (subst verify_fillers.simps) (simp add: IsMarked_def HeapSize_def)
  moreover have "mem h' x = mem h x" if "x < c" for x
  proof -
    from that a(4) have "x < c + sz" by simp
    with f have "mem h' x = mem ?h2 x" by simp
    with out that show ?thesis by simp
  qed
  ultimately show ?case using v by simp
qed

lemma sweep_primary_result:
  "mem h a = Tags marked sz \<Longrightarrow>
   sweep_primary h a =
     Inr (if marked then signed_drop_bit kWordSizeLog2 sz else 0,
          if marked then h\<lparr>mem := (mem h)(a := Tags False sz),
                           trace := trace h @ [EvIsMarked a, EvClearMarkBit a]\<rparr>
          else h\<lparr>trace := trace h @ [EvIsMarked a]\<rparr>)"
  by (simp add: sweep_primary_def IsMarked_def ClearMarkBit_def HeapSize_def)

text \<open>
  Claim C4. On a large page whose primary object has the header \<open>Tags marked sz\<close>,
  \<^verbatim>\<open>SweepLargePage\<close> returns 0 when the object is unmarked; when it is marked, the mark
  bit is cleared and the result is \<open>sz\<close> shifted right by \<open>kWordSizeLog2\<close>, which is the
  size in words. In a debug build this needs the trailing fillers to tile the rest of
  the page and to be unmarked; the result does not depend on them.
\<close>

theorem SweepLargePage_words_to_end:
  assumes "\<not> is_image_page pg"
    and "HeapPage_Of P (object_start pg) = page"
    and "mem h (object_start pg) = Tags marked sz"
    and "DEBUG P \<longrightarrow> object_start pg < object_start pg + sz \<and>
           unmarked_fillers (mem h) (object_start pg + sz) fillers (object_end pg)"
  shows "\<exists>h'. SweepLargePage P page pg h =
                 Some (Inr (if marked then signed_drop_bit kWordSizeLog2 sz else 0, h')) \<and>
              mem h' (object_start pg) = Tags False sz \<and>
              sint (signed_drop_bit kWordSizeLog2 sz) = sint sz div int kWordSize"
proof -
  let ?a = "object_start pg"
  let ?w = "if marked then signed_drop_bit kWordSizeLog2 sz else 0"
  let ?h1 = "if marked then h\<lparr>mem := (mem h)(?a := Tags False sz),
                           trace := trace h @ [EvIsMarked ?a, EvClearMarkBit ?a]\<rparr>
             else h\<lparr>trace := trace h @ [EvIsMarked ?a]\<rparr>"
  have sp: "sweep_primary h ?a = Inr (?w, ?h1)"
    using assms(3) by (rule sweep_primary_result)
  have m1: "mem ?h1 ?a = Tags False sz" using assms(3) by auto
  have words: "sint (signed_drop_bit kWordSizeLog2 sz) = sint sz div int kWordSize"
    by (simp add: sint_signed_drop_bit_eq drop_bit_eq_div kWordSizeLog2_def kWordSize_def)
  show ?thesis
  proof (cases "DEBUG P")
    case False
    with assms(1,2) sp m1 words show ?thesis
      by (intro exI [of _ ?h1]) (simp add: SweepLargePage_def)
  next
    case True
    with assms(4) have lt: "?a < ?a + sz"
      and f: "unmarked_fillers (mem h) (?a + sz) fillers (object_end pg)" by simp_all
    have "unmarked_fillers (mem ?h1) (?a + sz) fillers (object_end pg)"
      using f
    proof (rule fillers_frame)
      fix x assume "?a + sz \<le> x"
      with lt have "x \<noteq> ?a" by auto
      then show "mem ?h1 x = mem h x" by simp
    qed
    from verify_fillers_ok [OF this, of P] obtain h' where
      v: "verify_fillers P (object_end pg) (?a + sz) ?h1 = Some (Inr h')"
      and fr: "\<forall>x. x < ?a + sz \<longrightarrow> mem h' x = mem ?h1 x" by blast
    from fr lt m1 have "mem h' ?a = Tags False sz" by simp
    moreover have "HeapSize ?h1 ?a = Inr sz" using m1 by (simp add: HeapSize_def)
    ultimately show ?thesis
      using assms(1,2) sp v words True
      by (intro exI [of _ h']) (simp add: SweepLargePage_def)
  qed
qed


theorem SweepLargePage_words_to_end_witness:
  "\<not> is_image_page pgL \<and> HeapPage_Of Pd (object_start pgL) = 0x80000 \<and>
   mem hL (object_start pgL) = Tags True 48 \<and> DEBUG Pd \<and>
   object_start pgL < object_start pgL + 48 \<and>
   unmarked_fillers (mem hL) (object_start pgL + 48) [16] (object_end pgL) \<and>
   (\<exists>h'. SweepLargePage Pd 0x80000 pgL hL = Some (Inr (signed_drop_bit kWordSizeLog2 48, h')) \<and>
         mem h' (object_start pgL) = Tags False 48) \<and>
   sint (signed_drop_bit kWordSizeLog2 (48 :: uword)) = 6 \<and>
   mem hL0 (object_start pgL) = Tags False 48 \<and> HeapPage_Of P0 (object_start pgL) = 0x80000 \<and>
   \<not> DEBUG P0 \<and>
   (\<exists>h'. SweepLargePage P0 0x80000 pgL hL0 = Some (Inr (0, h')))"
proof -
  have i: "\<not> is_image_page pgL" by (simp add: pgL_def)
  have pd: "HeapPage_Of Pd (object_start pgL) = 0x80000" by (simp add: Pd_def P0_def pgL_def)
  have p0: "HeapPage_Of P0 (object_start pgL) = 0x80000" by (simp add: P0_def pgL_def)
  have m: "mem hL (object_start pgL) = Tags True 48" by (simp add: hL_def pgL_def)
  have m0: "mem hL0 (object_start pgL) = Tags False 48" by (simp add: hL0_def pgL_def)
  have d: "DEBUG Pd" "\<not> DEBUG P0" by (simp_all add: Pd_def P0_def)
  have lt: "object_start pgL < object_start pgL + 48" by (simp add: pgL_def)
  have f: "unmarked_fillers (mem hL) (object_start pgL + 48) [16] (object_end pgL)"
    by (simp add: hL_def pgL_def)
  from lt f have hd: "DEBUG Pd \<longrightarrow> object_start pgL < object_start pgL + 48 \<and>
      unmarked_fillers (mem hL) (object_start pgL + 48) [16] (object_end pgL)" by simp
  from d have h0: "DEBUG P0 \<longrightarrow> object_start pgL < object_start pgL + 48 \<and>
      unmarked_fillers (mem hL0) (object_start pgL + 48) [] (object_end pgL)" by simp
  from SweepLargePage_words_to_end [OF i pd m hd]
  have 1: "\<exists>h'. SweepLargePage Pd 0x80000 pgL hL = Some (Inr (signed_drop_bit kWordSizeLog2 48, h')) \<and>
         mem h' (object_start pgL) = Tags False 48"
    and 2: "sint (signed_drop_bit kWordSizeLog2 (48 :: uword)) = 6"
    by (auto simp: kWordSize_def)
  from SweepLargePage_words_to_end [OF i p0 m0 h0]
  have 3: "\<exists>h'. SweepLargePage P0 0x80000 pgL hL0 = Some (Inr (0, h'))" by auto
  from i pd m d lt f 1 2 m0 p0 3 show ?thesis by simp
qed

lemma page_level_Nil [simp]: "page_level [] = []"
  by (simp add: page_level_def)

lemma page_level_Cons [simp]:
  "page_level (ev # evs) =
     (if is_page_sweep ev \<or> is_notification ev then ev # page_level evs else page_level evs)"
  by (simp add: page_level_def)

lemma page_level_append [simp]: "page_level (xs @ ys) = page_level xs @ page_level ys"
  by (simp add: page_level_def)

lemma emit_simps [simp]:
  "events (emit ev s) = events s @ [ev]" "tasks (emit ev s) = tasks s"
  "phase (emit ev s) = phase s" "hp (emit ev s) = hp s" "pages (emit ev s) = pages s"
  by (simp_all add: emit_def)

lemma swept_mem_above:
  "tiled P page m a (concat (map seg_objs segs)) e \<Longrightarrow>
   (page_type pg = kExecutable \<longrightarrow> word_aligned (concat (map seg_objs segs))) \<Longrightarrow> e \<le> x \<Longrightarrow>
   mem (swept P pg freelist locked a segs h) x = mem h x"
proof (induction segs arbitrary: a h)
  case Nil
  then show ?case by simp
next
  case (Cons sg segs)
  let ?rest = "concat (map seg_objs segs)"
  show ?case
  proof (cases sg)
    case (Live sz)
    let ?h1 = "h\<lparr>mem := (mem h)(a := Tags False sz),
                  trace := trace h @ [EvIsMarked a, EvClearMarkBit a]\<rparr>"
    from Cons.prems(1) Live have t: "tiled P page m a ((True, sz) # ?rest) e" by simp
    note g = live_geometry [OF t]
    from t have "a < e" by simp
    with Cons.prems(3) have ne: "x \<noteq> a" by auto
    have "page_type pg = kExecutable \<longrightarrow> word_aligned ?rest"
      using Cons.prems(2) Live by (simp add: word_aligned_Cons word_aligned_append)
    then have "mem (swept P pg freelist locked (a + sz) segs ?h1) x = mem ?h1 x"
      using g(4) Cons.prems(3) by (intro Cons.IH)
    with ne Live show ?thesis by simp
  next
    case (Garbage szs)
    let ?n = "sum_list szs"
    let ?h1 = "publish pg freelist locked a ?n
                 (poison P pg a ?n (h\<lparr>trace := trace h @ run_reads pg a szs\<rparr>))"
    from Cons.prems(1) Garbage have t: "tiled P page m a (map (Pair False) szs @ ?rest) e" by simp
    note g = run_geometry [OF t]
    have al: "page_type pg = kExecutable \<longrightarrow> unat ?n mod kWordSize = 0"
      using Cons.prems(2) Garbage g(5) by (simp add: word_aligned_Cons word_aligned_append)
    have out: "unat a + unat ?n \<le> unat x"
      using g(1) Cons.prems(3) by (simp add: word_le_nat_alt)
    have "page_type pg = kExecutable \<longrightarrow> word_aligned ?rest"
      using Cons.prems(2) Garbage by (simp add: word_aligned_Cons word_aligned_append)
    then have "mem (swept P pg freelist locked (a + ?n) segs ?h1) x = mem ?h1 x"
      using g(4) Cons.prems(3) by (intro Cons.IH)
    also have "\<dots> = mem h x"
      using poison_outside [OF g(1) al, of x P "h\<lparr>trace := trace h @ run_reads pg a szs\<rparr>"] out
      by simp
    finally show ?thesis using Garbage by simp
  qed
qed

lemma SweepPage_total:
  assumes "tiled P page (mem h) (object_start pg) objs (object_end pg)"
    and "\<not> is_image_page pg"
    and "page_type pg = kExecutable \<longrightarrow> word_aligned objs"
  shows "\<exists>h'. SweepPage P page pg freelist locked h =
                 Some (Inr (live_bytes objs \<noteq> 0, pg\<lparr>used_in_bytes := live_bytes objs\<rparr>, h')) \<and>
              (\<forall>x. x < object_start pg \<or> object_end pg \<le> x \<longrightarrow> mem h' x = mem h x)"
proof -
  let ?h' = "swept P pg freelist locked (object_start pg) (segments objs) h"
  have t: "tiled P page (mem h) (object_start pg) (concat (map seg_objs (segments objs)))
             (object_end pg)"
    using assms(1) by (simp add: objs_of_segments)
  have al: "page_type pg = kExecutable \<longrightarrow> word_aligned (concat (map seg_objs (segments objs)))"
    using assms(3) by (simp add: objs_of_segments)
  have "mem ?h' x = mem h x" if "x < object_start pg \<or> object_end pg \<le> x" for x
    using that swept_mem_below [OF t al, of x freelist locked h]
      swept_mem_above [OF t al, of x freelist locked h] by auto
  with SweepPage_swept(2) [OF assms, of freelist locked] show ?thesis by blast
qed

lemma filler_tiled_le: "filler_tiled m a szs e \<Longrightarrow> a \<le> e"
  by (cases szs) auto

lemma filler_tiled_frame:
  "filler_tiled m a szs e \<Longrightarrow> (\<And>x. a \<le> x \<Longrightarrow> x < e \<Longrightarrow> m' x = m x) \<Longrightarrow> filler_tiled m' a szs e"
proof (induction szs arbitrary: a)
  case Nil
  then show ?case by simp
next
  case (Cons sz szs)
  from Cons.prems(1) have a: "a < e" "m a = Tags False sz" "0 < sz" "sz \<le> e - a"
    and t: "filler_tiled m (a + sz) szs e" by auto
  have le: "a \<le> a + sz" using a(1,4) by unat_arith
  have "filler_tiled m' (a + sz) szs e"
    using t le by (intro Cons.IH) (auto intro: Cons.prems(2))
  moreover have "m' a = Tags False sz" using Cons.prems(2) [of a] a by simp
  ultimately show ?case using a by simp
qed

lemma verify_fillers_tiled:
  "filler_tiled (mem h) c szs e \<Longrightarrow>
   \<exists>h'. verify_fillers P e c h = Some (Inr h') \<and>
        (\<forall>x. x < c \<or> e \<le> x \<longrightarrow> mem h' x = mem h x)"
proof (induction szs arbitrary: c h)
  case Nil
  then have "\<not> c < e" by simp
  then have "verify_fillers P e c h = Some (Inr h)" by (subst verify_fillers.simps) simp
  then show ?case by simp
next
  case (Cons sz szs)
  let ?h1 = "h\<lparr>trace := trace h @ [EvIsMarked c]\<rparr>"
  let ?h2 = "Memset ?h1 c (kZapByte P) sz"
  from Cons.prems have a: "c < e" "mem h c = Tags False sz" "0 < sz" "sz \<le> e - c"
    and t: "filler_tiled (mem h) (c + sz) szs e" by auto
  have u: "unat (c + sz) = unat c + unat sz" using a(1,4) by (rule step_no_wrap)
  have le: "c \<le> c + sz" using u by (simp add: word_le_nat_alt)
  have ce: "c + sz \<le> e" using t by (rule filler_tiled_le)
  have out: "mem ?h2 x = mem h x" if "x < c \<or> c + sz \<le> x" for x
  proof -
    have "write_bytes (mem h) c (replicate (unat sz) (kZapByte P)) x = mem h x"
      using that u by (intro write_bytes_outside [where e = "c + sz"]) (auto simp: word_le_nat_alt)
    then show ?thesis by (simp add: Memset_def)
  qed
  have "filler_tiled (mem ?h2) (c + sz) szs e"
    using t by (rule filler_tiled_frame) (simp add: out)
  from Cons.IH [OF this] obtain h' where
    v: "verify_fillers P e (c + sz) ?h2 = Some (Inr h')"
    and f: "\<forall>x. x < c + sz \<or> e \<le> x \<longrightarrow> mem h' x = mem ?h2 x" by blast
  have "verify_fillers P e c h = verify_fillers P e (c + sz) ?h2"
    using a by (subst verify_fillers.simps) (simp add: IsMarked_def HeapSize_def)
  moreover have "mem h' x = mem h x" if "x < c \<or> e \<le> x" for x
  proof -
    from that le have 1: "x < c + sz \<or> e \<le> x" by auto
    from that ce have 2: "x < c \<or> c + sz \<le> x" by auto
    from f 1 have "mem h' x = mem ?h2 x" by blast
    with out [OF 2] show ?thesis by simp
  qed
  ultimately show ?case using v by simp
qed

lemma SweepLargePage_total:
  assumes "large_page_ok P page pg (mem h) (marked, sz, fillers)"
  shows "\<exists>h'. SweepLargePage P page pg h =
                 Some (Inr (if marked then signed_drop_bit kWordSizeLog2 sz else 0, h')) \<and>
              (\<forall>x. x < object_start pg \<or> object_end pg \<le> x \<longrightarrow> mem h' x = mem h x)"
proof -
  let ?a = "object_start pg"
  let ?e = "object_end pg"
  let ?w = "if marked then signed_drop_bit kWordSizeLog2 sz else 0"
  let ?h1 = "if marked then h\<lparr>mem := (mem h)(?a := Tags False sz),
                           trace := trace h @ [EvIsMarked ?a, EvClearMarkBit ?a]\<rparr>
             else h\<lparr>trace := trace h @ [EvIsMarked ?a]\<rparr>"
  from assms have i: "\<not> is_image_page pg" and pof: "HeapPage_Of P ?a = page"
    and lt: "?a < ?e" and m: "mem h ?a = Tags marked sz" and p: "0 < sz"
    and le: "sz \<le> ?e - ?a"
    and f: "DEBUG P \<longrightarrow> filler_tiled (mem h) (?a + sz) fillers ?e" by simp_all
  have sp: "sweep_primary h ?a = Inr (?w, ?h1)" using m by (rule sweep_primary_result)
  have u: "unat (?a + sz) = unat ?a + unat sz" using lt le by (rule step_no_wrap)
  have lt2: "?a < ?a + sz" using p u by (simp add: word_less_nat_alt)
  have m1: "mem ?h1 ?a = Tags False sz" using m by auto
  have fr1: "mem ?h1 x = mem h x" if "x \<noteq> ?a" for x using that by simp
  show ?thesis
  proof (cases "DEBUG P")
    case False
    have "\<forall>x. x < ?a \<or> ?e \<le> x \<longrightarrow> mem ?h1 x = mem h x" using lt fr1 by auto
    with False i pof sp show ?thesis
      by (intro exI [of _ ?h1]) (simp add: SweepLargePage_def)
  next
    case True
    with f have ft: "filler_tiled (mem h) (?a + sz) fillers ?e" by simp
    have "filler_tiled (mem ?h1) (?a + sz) fillers ?e"
      using ft
    proof (rule filler_tiled_frame)
      fix x assume "?a + sz \<le> x"
      with lt2 have "x \<noteq> ?a" by auto
      then show "mem ?h1 x = mem h x" by (rule fr1)
    qed
    from verify_fillers_tiled [OF this, of P] obtain h' where
      v: "verify_fillers P ?e (?a + sz) ?h1 = Some (Inr h')"
      and fr: "\<forall>x. x < ?a + sz \<or> ?e \<le> x \<longrightarrow> mem h' x = mem ?h1 x" by blast
    have "mem h' x = mem h x" if "x < ?a \<or> ?e \<le> x" for x
    proof -
      from that lt2 have "x < ?a + sz \<or> ?e \<le> x" by auto
      with fr have "mem h' x = mem ?h1 x" by blast
      moreover from that lt have "x \<noteq> ?a" by auto
      then have "mem ?h1 x = mem h x" by (rule fr1)
      ultimately show ?thesis by (rule trans)
    qed
    moreover have "HeapSize ?h1 ?a = Inr sz" using m1 by (simp add: HeapSize_def)
    ultimately show ?thesis
      using i pof sp v True by (intro exI [of _ h']) (simp add: SweepLargePage_def)
  qed
qed

lemma page_chain_used:
  "pgs page = Some pg \<Longrightarrow>
   page_chain (pgs(page := Some (pg\<lparr>used_in_bytes := u\<rparr>))) l p ps = page_chain pgs l p ps"
  by (induction ps arbitrary: p) (auto split: option.splits)

lemma area_apart_used:
  "pgs page = Some pg \<Longrightarrow> area_apart (pgs(page := Some (pg\<lparr>used_in_bytes := u\<rparr>))) = area_apart pgs"
  "area_apart pgs (x\<lparr>used_in_bytes := u\<rparr>) = area_apart pgs x"
  by (auto simp: fun_eq_iff area_apart_def split: option.splits)

lemma pages_apart_used:
  "pgs page = Some pg \<Longrightarrow>
   pages_apart (pgs(page := Some (pg\<lparr>used_in_bytes := u\<rparr>))) ps = pages_apart pgs ps"
  by (induction ps) (auto simp: area_apart_used split: option.splits)

lemma ordinary_pages_ok_used:
  "pgs page = Some pg \<Longrightarrow>
   ordinary_pages_ok P (pgs(page := Some (pg\<lparr>used_in_bytes := u\<rparr>))) m ords =
   ordinary_pages_ok P pgs m ords"
proof (induction ords)
  case Nil
  then show ?case by simp
next
  case (Cons od ords)
  obtain q objs where od: "od = (q, objs)" by (cases od)
  show ?case
  proof (cases "q = page")
    case True
    with Cons od show ?thesis by simp
  next
    case False
    with Cons od show ?thesis by (simp split: option.split)
  qed
qed

lemma pages_apart_append: "pages_apart pgs (xs @ ys) \<Longrightarrow> pages_apart pgs ys"
  by (induction xs) (auto split: option.splits)

lemma area_apart_outside:
  assumes "area_apart pgs pg q" and "pgs q = Some pg'"
    and "object_start pg' \<le> x" and "x < object_end pg'"
  shows "x < object_start pg \<or> object_end pg \<le> x"
  using assms by (auto simp: area_apart_def)

lemma ordinary_pages_ok_frame:
  assumes "ordinary_pages_ok P pgs m ords"
    and "list_all (area_apart pgs pg) (map fst ords)"
    and "\<And>x. x < object_start pg \<or> object_end pg \<le> x \<Longrightarrow> m' x = m x"
  shows "ordinary_pages_ok P pgs m' ords"
  using assms(1,2)
proof (induction ords)
  case Nil
  then show ?case by simp
next
  case (Cons od ords)
  obtain q objs where od: "od = (q, objs)" by (cases od)
  from Cons.prems(1) od obtain pg' where q: "pgs q = Some pg'" by (cases "pgs q") auto
  from Cons.prems(1) od q have ok: "page_type pg' = kData" "\<not> is_image_page pg'"
      "tiled P q m (object_start pg') objs (object_end pg')"
    and rest: "ordinary_pages_ok P pgs m ords" by simp_all
  from Cons.prems(2) od have ap: "area_apart pgs pg q"
    and aps: "list_all (area_apart pgs pg) (map fst ords)" by simp_all
  have "tiled P q m' (object_start pg') objs (object_end pg')"
    using ok(3)
  proof (rule tiled_frame)
    fix x assume "object_start pg' \<le> x" "x < object_end pg'"
    with ap q have "x < object_start pg \<or> object_end pg \<le> x" by (rule area_apart_outside)
    then show "m' x = m x" by (rule assms(3))
  qed
  with Cons.IH [OF rest aps] q ok(1,2) od show ?case by simp
qed

lemma large_pages_ok_frame:
  assumes "large_pages_ok P pgs m larges"
    and "list_all (area_apart pgs pg) (map fst larges)"
    and "\<And>x. x < object_start pg \<or> object_end pg \<le> x \<Longrightarrow> m' x = m x"
  shows "large_pages_ok P pgs m' larges"
  using assms(1,2)
proof (induction larges)
  case Nil
  then show ?case by simp
next
  case (Cons ld larges)
  obtain q marked sz fillers where ld: "ld = (q, marked, sz, fillers)" by (cases ld)
  from Cons.prems(1) ld obtain pg' where q: "pgs q = Some pg'" by (cases "pgs q") auto
  from Cons.prems(1) ld q have ok: "large_page_ok P q pg' m (marked, sz, fillers)"
    and rest: "large_pages_ok P pgs m larges" by simp_all
  from Cons.prems(2) ld have ap: "area_apart pgs pg q"
    and aps: "list_all (area_apart pgs pg) (map fst larges)" by simp_all
  let ?a = "object_start pg'"
  let ?e = "object_end pg'"
  have same: "m' x = m x" if "?a \<le> x" "x < ?e" for x
  proof -
    from ap q that have "x < object_start pg \<or> object_end pg \<le> x" by (rule area_apart_outside)
    then show ?thesis by (rule assms(3))
  qed
  from ok have lt: "?a < ?e" and le: "sz \<le> ?e - ?a" by simp_all
  have le2: "?a \<le> ?a + sz" using lt le by unat_arith
  have "filler_tiled m' (?a + sz) fillers ?e" if "filler_tiled m (?a + sz) fillers ?e"
    using that
  proof (rule filler_tiled_frame)
    fix x assume "?a + sz \<le> x" "x < ?e"
    with le2 show "m' x = m x" by (intro same) auto
  qed
  moreover have "m' ?a = m ?a" using lt by (intro same) simp_all
  ultimately have "large_page_ok P q pg' m' (marked, sz, fillers)" using ok by simp
  with Cons.IH [OF rest aps] q ld show ?case by simp
qed


lemma sweep_pages_total:
  assumes "page_chain (pages s) (last t) page (map fst ords)"
    and "ordinary_pages_ok P (pages s) (mem (hp s)) ords"
    and "pages_apart (pages s) (map fst ords)"
  shows "\<exists>s' mid. sweep_pages P t page prev s = Some (Inr s') \<and>
           tasks s' = tasks s \<and> phase s' = phase s \<and> events s' = events s @ mid \<and>
           list_all (\<lambda>ev. \<not> writes_count_or_phase ev) mid \<and>
           page_level mid = concat (map (\<lambda>p. [EvSweepPage p, EvNotify]) (map fst ords))"
  using assms
proof (induction ords arbitrary: page prev s)
  case Nil
  then have "page = 0" by simp
  then have "sweep_pages P t page prev s = Some (Inr s)" by (subst sweep_pages.simps) simp
  then show ?case by (intro exI [of _ s] exI [of _ "[]"]) simp
next
  case (Cons od ords)
  obtain q objs where od: "od = (q, objs)" by (cases od)
  from Cons.prems(1) od have q: "page = q" "q \<noteq> 0" by simp_all
  from Cons.prems(1) od obtain pg where pg: "pages s q = Some pg" by (cases "pages s q") auto
  let ?nxt = "if q = last t then 0 else next_page pg"
  from Cons.prems(1) od pg have ch: "page_chain (pages s) (last t) ?nxt (map fst ords)" by simp
  from Cons.prems(2) od pg have ok: "page_type pg = kData" "\<not> is_image_page pg"
      "tiled P q (mem (hp s)) (object_start pg) objs (object_end pg)"
    and oks: "ordinary_pages_ok P (pages s) (mem (hp s)) ords" by simp_all
  from Cons.prems(3) od pg have ap: "list_all (area_apart (pages s) pg) (map fst ords)"
    and aps: "pages_apart (pages s) (map fst ords)" by simp_all
  have al: "page_type pg = kExecutable \<longrightarrow> word_aligned objs" using ok(1) by simp
  let ?u = "live_bytes objs"
  from SweepPage_total [OF ok(3,2) al, of "task_freelist t" False] obtain h' where
    sp: "SweepPage P q pg (task_freelist t) False (hp s) =
           Some (Inr (?u \<noteq> 0, pg\<lparr>used_in_bytes := ?u\<rparr>, h'))"
    and fr: "\<And>x. x < object_start pg \<or> object_end pg \<le> x \<Longrightarrow> mem h' x = mem (hp s) x"
    by blast
  let ?pgs = "(pages s)(q := Some (pg\<lparr>used_in_bytes := ?u\<rparr>))"
  let ?s1 = "(emit (EvSweepPage q) s)\<lparr>hp := h', pages := ?pgs\<rparr>"
  let ?s3 = "emit MonitorExit (emit EvNotify (emit MonitorEnter
               (if ?u \<noteq> 0 then ?s1 else FreePage q prev ?s1)))"
  let ?prv = "if ?u \<noteq> 0 then q else prev"
  let ?pre = "[EvSweepPage q] @ (if ?u \<noteq> 0 then [] else [EvFreePage q prev]) @
              [MonitorEnter, EvNotify, MonitorExit]"
  have step: "sweep_pages P t page prev s = sweep_pages P t ?nxt ?prv ?s3"
    using q pg ok(1) sp by (subst sweep_pages.simps) (simp add: Let_def)
  have s3: "pages ?s3 = ?pgs" "hp ?s3 = h'" "tasks ?s3 = tasks s" "phase ?s3 = phase s"
    "events ?s3 = events s @ ?pre"
    by (simp_all add: FreePage_def)
  have 1: "page_chain (pages ?s3) (last t) ?nxt (map fst ords)"
    unfolding s3(1) using ch by (simp only: page_chain_used [where pgs = "pages s" and page = q, OF pg])
  have "ordinary_pages_ok P (pages s) (mem h') ords"
    using oks ap fr by (rule ordinary_pages_ok_frame)
  then have 2: "ordinary_pages_ok P (pages ?s3) (mem (hp ?s3)) ords"
    unfolding s3(1,2) by (simp only: ordinary_pages_ok_used [where pgs = "pages s" and page = q, OF pg])
  have 3: "pages_apart (pages ?s3) (map fst ords)"
    unfolding s3(1) using aps by (simp only: pages_apart_used [where pgs = "pages s" and page = q, OF pg])
  from Cons.IH [OF 1 2 3, of ?prv] obtain s' mid where
    r: "sweep_pages P t ?nxt ?prv ?s3 = Some (Inr s')"
    and tp: "tasks s' = tasks ?s3" "phase s' = phase ?s3"
    and ev: "events s' = events ?s3 @ mid"
    and ns: "list_all (\<lambda>ev. \<not> writes_count_or_phase ev) mid"
    and pl: "page_level mid = concat (map (\<lambda>p. [EvSweepPage p, EvNotify]) (map fst ords))"
    by blast
  have "sweep_pages P t page prev s = Some (Inr s')" using step r by simp
  moreover have "tasks s' = tasks s" "phase s' = phase s" using tp s3(3,4) by simp_all
  moreover have "events s' = events s @ (?pre @ mid)" using ev s3(5) by simp
  moreover have "list_all (\<lambda>ev. \<not> writes_count_or_phase ev) (?pre @ mid)" using ns by simp
  moreover have "page_level (?pre @ mid) =
      concat (map (\<lambda>p. [EvSweepPage p, EvNotify]) (map fst (od # ords)))"
    using pl od by simp
  ultimately show ?case by blast
qed

lemma sweep_large_pages_total:
  assumes "page_chain (pages s) (large_last t) page (map fst larges)"
    and "large_pages_ok P (pages s) (mem (hp s)) larges"
    and "ordinary_pages_ok P (pages s) (mem (hp s)) ords"
    and "pages_apart (pages s) (map fst larges @ map fst ords)"
  shows "\<exists>s' mid. sweep_large_pages P t page prev s = Some (Inr s') \<and>
           pages s' = pages s \<and> ordinary_pages_ok P (pages s) (mem (hp s')) ords \<and>
           tasks s' = tasks s \<and> phase s' = phase s \<and> events s' = events s @ mid \<and>
           list_all (\<lambda>ev. \<not> writes_count_or_phase ev) mid \<and>
           page_level mid = map EvSweepLargePage (map fst larges)"
  using assms
proof (induction larges arbitrary: page prev s)
  case Nil
  then have "page = 0" by simp
  then have "sweep_large_pages P t page prev s = Some (Inr s)"
    by (subst sweep_large_pages.simps) simp
  with Nil.prems(3) show ?case by (intro exI [of _ s] exI [of _ "[]"]) simp
next
  case (Cons ld larges)
  obtain q marked sz fillers where ld: "ld = (q, marked, sz, fillers)" by (cases ld)
  from Cons.prems(1) ld have q: "page = q" "q \<noteq> 0" by simp_all
  from Cons.prems(1) ld obtain pg where pg: "pages s q = Some pg" by (cases "pages s q") auto
  let ?nxt = "if q = large_last t then 0 else next_page pg"
  from Cons.prems(1) ld pg
  have ch: "page_chain (pages s) (large_last t) ?nxt (map fst larges)" by simp
  from Cons.prems(2) ld pg have ok: "large_page_ok P q pg (mem (hp s)) (marked, sz, fillers)"
    and oks: "large_pages_ok P (pages s) (mem (hp s)) larges" by simp_all
  from ok have ty: "page_type pg = kData" by simp
  from Cons.prems(4) ld pg
  have ap: "list_all (area_apart (pages s) pg) (map fst larges)"
      "list_all (area_apart (pages s) pg) (map fst ords)"
    and aps: "pages_apart (pages s) (map fst larges @ map fst ords)" by simp_all
  let ?w = "if marked then signed_drop_bit kWordSizeLog2 sz else 0"
  from SweepLargePage_total [OF ok] obtain h' where
    sp: "SweepLargePage P q pg (hp s) = Some (Inr (?w, h'))"
    and fr: "\<And>x. x < object_start pg \<or> object_end pg \<le> x \<Longrightarrow> mem h' x = mem (hp s) x"
    by blast
  let ?s1 = "(emit (EvSweepLargePage q) s)\<lparr>hp := h'\<rparr>"
  let ?s3 = "if ?w = 0 then FreeLargePage q prev ?s1
             else TruncateLargePage q (push_bit kWordSizeLog2 ?w) ?s1"
  let ?prv = "if ?w = 0 then prev else q"
  let ?ev = "if ?w = 0 then EvFreeLargePage q prev
             else EvTruncateLargePage q (push_bit kWordSizeLog2 ?w)"
  have step: "sweep_large_pages P t page prev s = sweep_large_pages P t ?nxt ?prv ?s3"
    using q pg ty sp by (subst sweep_large_pages.simps) (simp add: Let_def)
  have s3: "pages ?s3 = pages s" "hp ?s3 = h'" "tasks ?s3 = tasks s" "phase ?s3 = phase s"
    "events ?s3 = events s @ [EvSweepLargePage q, ?ev]"
    by (simp_all add: FreeLargePage_def TruncateLargePage_def)
  have evp: "\<not> writes_count_or_phase ?ev" "\<not> is_page_sweep ?ev" "\<not> is_notification ?ev"
    by simp_all
  have 1: "page_chain (pages ?s3) (large_last t) ?nxt (map fst larges)"
    unfolding s3(1) by (rule ch)
  have 2: "large_pages_ok P (pages ?s3) (mem (hp ?s3)) larges"
    unfolding s3(1,2) using oks ap(1) fr by (rule large_pages_ok_frame)
  have 3: "ordinary_pages_ok P (pages ?s3) (mem (hp ?s3)) ords"
    unfolding s3(1,2) using Cons.prems(3) ap(2) fr by (rule ordinary_pages_ok_frame)
  have 4: "pages_apart (pages ?s3) (map fst larges @ map fst ords)"
    unfolding s3(1) by (rule aps)
  from Cons.IH [OF 1 2 3 4, of ?prv] obtain s' mid where
    r: "sweep_large_pages P t ?nxt ?prv ?s3 = Some (Inr s')"
    and pp: "pages s' = pages ?s3"
    and oo: "ordinary_pages_ok P (pages ?s3) (mem (hp s')) ords"
    and tp: "tasks s' = tasks ?s3" "phase s' = phase ?s3"
    and ev: "events s' = events ?s3 @ mid"
    and ns: "list_all (\<lambda>ev. \<not> writes_count_or_phase ev) mid"
    and pl: "page_level mid = map EvSweepLargePage (map fst larges)"
    by blast
  let ?pre = "[EvSweepLargePage q, ?ev]"
  have "sweep_large_pages P t page prev s = Some (Inr s')" using step r by simp
  moreover have "pages s' = pages s" using pp s3(1) by simp
  moreover have "ordinary_pages_ok P (pages s) (mem (hp s')) ords" using oo s3(1) by simp
  moreover have "tasks s' = tasks s" "phase s' = phase s" using tp s3(3,4) by simp_all
  moreover have "events s' = events s @ (?pre @ mid)" using ev s3(5) by simp
  moreover have "list_all (\<lambda>ev. \<not> writes_count_or_phase ev) (?pre @ mid)"
    using ns evp(1) by simp
  moreover have "page_level (?pre @ mid) = map EvSweepLargePage (map fst (ld # larges))"
    using pl ld evp(2,3) by simp
  ultimately show ?case by blast
qed

lemma finish_task_result:
  "finish_task s =
     (if phase s \<noteq> kSweeping then Inl AssertionFailed
      else Inr (s\<lparr>tasks := tasks s - 1, phase := kDone,
                  events := events s @ [EvExitIsolateAsHelper, MonitorEnter,
                              EvSetTasks (tasks s - 1), EvSetPhase kDone, EvNotifyAll,
                              MonitorExit]\<rparr>))"
  by (simp add: finish_task_def Let_def set_tasks_def set_phase_def emit_def)

lemma Run_total:
  assumes "sweepable P t s larges ords"
    and "EnterIsolateAsHelper T" and "BypassSafepoints T"
  shows "\<exists>s2 mid. Run P T t s = Some (finish_task s2) \<and>
           tasks s2 = tasks s \<and> phase s2 = phase s \<and> events s2 = events s @ mid \<and>
           list_all (\<lambda>ev. \<not> writes_count_or_phase ev) mid \<and>
           page_level mid =
             map EvSweepLargePage (map fst larges) @
             concat (map (\<lambda>p. [EvSweepPage p, EvNotify]) (map fst ords))"
proof -
  let ?sE = "emit EvEnterIsolateAsHelper s"
  from assms(1) have
    c1: "page_chain (pages ?sE) (large_last t) (large_first t) (map fst larges)"
    and c2: "page_chain (pages s) (last t) (first t) (map fst ords)"
    and l: "large_pages_ok P (pages ?sE) (mem (hp ?sE)) larges"
    and o: "ordinary_pages_ok P (pages ?sE) (mem (hp ?sE)) ords"
    and a: "pages_apart (pages ?sE) (map fst larges @ map fst ords)"
    by (simp_all add: sweepable_def)
  from sweep_large_pages_total [OF c1 l o a, of 0] obtain s1 mid1 where
    r1: "sweep_large_pages P t (large_first t) 0 ?sE = Some (Inr s1)"
    and p1: "pages s1 = pages s"
    and o1: "ordinary_pages_ok P (pages s) (mem (hp s1)) ords"
    and e1: "tasks s1 = tasks s" "phase s1 = phase s"
      "events s1 = events s @ [EvEnterIsolateAsHelper] @ mid1"
      "list_all (\<lambda>ev. \<not> writes_count_or_phase ev) mid1"
      "page_level mid1 = map EvSweepLargePage (map fst larges)"
    by auto
  from a have a2: "pages_apart (pages s) (map fst ords)"
    using pages_apart_append [of "pages s" "map fst larges" "map fst ords"] by simp
  from c2 o1 a2 have "page_chain (pages s1) (last t) (first t) (map fst ords)"
    "ordinary_pages_ok P (pages s1) (mem (hp s1)) ords" "pages_apart (pages s1) (map fst ords)"
    by (simp_all add: p1)
  from sweep_pages_total [OF this, of 0] obtain s2 mid2 where
    r2: "sweep_pages P t (first t) 0 s1 = Some (Inr s2)"
    and e2: "tasks s2 = tasks s1" "phase s2 = phase s1" "events s2 = events s1 @ mid2"
      "list_all (\<lambda>ev. \<not> writes_count_or_phase ev) mid2"
      "page_level mid2 = concat (map (\<lambda>p. [EvSweepPage p, EvNotify]) (map fst ords))"
    by blast
  let ?mid = "[EvEnterIsolateAsHelper] @ mid1 @ mid2"
  have "Run P T t s = Some (finish_task s2)" using assms(2,3) r1 r2 by (simp add: Run_def)
  moreover have "tasks s2 = tasks s" "phase s2 = phase s" using e1 e2 by simp_all
  moreover have "events s2 = events s @ ?mid" using e1 e2 by simp
  moreover have "list_all (\<lambda>ev. \<not> writes_count_or_phase ev) ?mid" using e1 e2 by simp
  moreover have "page_level ?mid =
      map EvSweepLargePage (map fst larges) @
      concat (map (\<lambda>p. [EvSweepPage p, EvNotify]) (map fst ords))" using e1 e2 by simp
  ultimately show ?thesis by blast
qed

lemma ConcurrentSweeperTask_events:
  assumes "ConcurrentSweeperTask isolate old_space0 first0 last0 large_first0 large_last0 freelist s
             = Inr (t, s1)"
  shows "events s1 = events s @ [MonitorEnter, EvSetTasks (tasks s + 1), EvSetPhase kSweeping,
                                 MonitorExit] \<and>
         tasks s1 = tasks s + 1 \<and> phase s1 = kSweeping \<and>
         first t = first0 \<and> first0 \<noteq> 0"
  using assms
  by (auto simp: ConcurrentSweeperTask_def set_tasks_def set_phase_def emit_def split: if_splits)





lemma example_sweepable: "sweepable Pd tR vmR largesR ordsR"
proof -
  have pg: "pages vmR 0x80000 = Some pgL1" "pages vmR 0x100000 = Some pgL2"
    "pages vmR 0x40000 = Some pgO1" "pages vmR 0xC0000 = Some pgO2"
    by (simp_all add: vmR_def)
  have 1: "page_chain (pages vmR) (large_last tR) (large_first tR) (map fst largesR)"
    by (simp add: pg largesR_def tR_def pgL1_def)
  have 2: "page_chain (pages vmR) (last tR) (first tR) (map fst ordsR)"
    by (simp add: pg ordsR_def tR_def pgO1_def)
  have 3: "large_pages_ok Pd (pages vmR) (mem (hp vmR)) largesR"
    by (simp add: pg largesR_def) (simp add: vmR_def hR_def pgL1_def pgL2_def Pd_def P0_def)
  have 4: "ordinary_pages_ok Pd (pages vmR) (mem (hp vmR)) ordsR"
    by (simp add: pg ordsR_def) (simp add: vmR_def hR_def pgO1_def pgO2_def Pd_def P0_def)
  have 5: "pages_apart (pages vmR) (map fst largesR @ map fst ordsR)"
    by (simp add: pg largesR_def ordsR_def area_apart_def)
      (simp add: pgL1_def pgL2_def pgO1_def pgO2_def)
  from 1 2 3 4 5 show ?thesis by (simp add: sweepable_def)
qed

text \<open>
  Claim C5. The constructor of the task, inside the monitor, sets the task count to
  one more and the phase to \<open>kSweeping\<close>. Over well-formed page lists \<^verbatim>\<open>Run\<close> then
  returns: it has not set the count or the phase before its last critical section,
  where, inside the monitor, it sets the count to one less, sets the phase to \<open>kDone\<close>
  and notifies all waiters. From a count of 0 the count is 1 after the constructor and 0
  after the run. The assertion on the phase is in force: with any other phase than
  \<open>kSweeping\<close> in the state that the task runs in, \<^verbatim>\<open>Run\<close> fails on an assertion, and
  only then.
\<close>

theorem task_phase_protocol:
  assumes "ConcurrentSweeperTask isolate old_space0 first0 last0 large_first0 large_last0 freelist s
             = Inr (t, s1)"
    and "sweepable P t s larges ords"
    and "EnterIsolateAsHelper T" and "BypassSafepoints T"
  shows "events s1 = events s @ [MonitorEnter, EvSetTasks (tasks s + 1), EvSetPhase kSweeping,
                                 MonitorExit] \<and>
         tasks s1 = tasks s + 1 \<and> phase s1 = kSweeping \<and>
         (\<exists>s2 mid. Run P T t s1 = Some (Inr s2) \<and>
            events s2 = events s1 @ mid @ [MonitorEnter, EvSetTasks (tasks s1 - 1),
                                           EvSetPhase kDone, EvNotifyAll, MonitorExit] \<and>
            list_all (\<lambda>ev. \<not> writes_count_or_phase ev) mid \<and>
            tasks s2 = tasks s \<and> phase s2 = kDone) \<and>
         (\<forall>ph. Run P T t (s1\<lparr>phase := ph\<rparr>) = Some (Inl AssertionFailed) \<longleftrightarrow> ph \<noteq> kSweeping)"
proof -
  from ConcurrentSweeperTask_events [OF assms(1)]
  have c: "events s1 = events s @ [MonitorEnter, EvSetTasks (tasks s + 1), EvSetPhase kSweeping,
                                 MonitorExit]"
    "tasks s1 = tasks s + 1" "phase s1 = kSweeping" by simp_all
  from assms(1) have same: "pages s1 = pages s" "hp s1 = hp s"
    by (auto simp: ConcurrentSweeperTask_def set_tasks_def set_phase_def emit_def split: if_splits)
  have sw: "sweepable P t (s1\<lparr>phase := ph\<rparr>) larges ords" for ph
    using assms(2) same by (simp add: sweepable_def)
  have run: "\<exists>s2 mid. Run P T t (s1\<lparr>phase := ph\<rparr>) = Some (finish_task s2) \<and>
      tasks s2 = tasks s1 \<and> phase s2 = ph \<and> events s2 = events s1 @ mid \<and>
      list_all (\<lambda>ev. \<not> writes_count_or_phase ev) mid" for ph
    using Run_total [OF sw [of ph] assms(3,4)] by auto
  have fail: "Run P T t (s1\<lparr>phase := ph\<rparr>) = Some (Inl AssertionFailed) \<longleftrightarrow> ph \<noteq> kSweeping" for ph
  proof -
    from run [of ph] obtain s2 where "Run P T t (s1\<lparr>phase := ph\<rparr>) = Some (finish_task s2)"
      and "phase s2 = ph" by blast
    then show ?thesis by (simp add: finish_task_result)
  qed
  have id: "s1\<lparr>phase := kSweeping\<rparr> = s1" using c(3) by (cases s1) simp
  from run [of kSweeping] obtain s2 mid where
    r: "Run P T t s1 = Some (finish_task s2)"
    and s2: "tasks s2 = tasks s1" "phase s2 = kSweeping" "events s2 = events s1 @ mid"
      "list_all (\<lambda>ev. \<not> writes_count_or_phase ev) mid"
    unfolding id by blast
  let ?s3 = "s2\<lparr>tasks := tasks s2 - 1, phase := kDone,
                  events := events s2 @ [EvExitIsolateAsHelper, MonitorEnter,
                              EvSetTasks (tasks s2 - 1), EvSetPhase kDone, EvNotifyAll,
                              MonitorExit]\<rparr>"
  let ?mid = "mid @ [EvExitIsolateAsHelper]"
  have "Run P T t s1 = Some (Inr ?s3)" using r s2(2) by (simp add: finish_task_result)
  moreover have "events ?s3 = events s1 @ ?mid @ [MonitorEnter, EvSetTasks (tasks s1 - 1),
                                           EvSetPhase kDone, EvNotifyAll, MonitorExit]"
    using s2 by simp
  moreover have "list_all (\<lambda>ev. \<not> writes_count_or_phase ev) ?mid" using s2(4) by simp
  moreover have "tasks ?s3 = tasks s" "phase ?s3 = kDone" using s2(1) c(2) by simp_all
  ultimately have "\<exists>s2 mid. Run P T t s1 = Some (Inr s2) \<and>
            events s2 = events s1 @ mid @ [MonitorEnter, EvSetTasks (tasks s1 - 1),
                                           EvSetPhase kDone, EvNotifyAll, MonitorExit] \<and>
            list_all (\<lambda>ev. \<not> writes_count_or_phase ev) mid \<and>
            tasks s2 = tasks s \<and> phase s2 = kDone"
    by blast
  with c fail show ?thesis by blast
qed

theorem task_phase_protocol_witness:
  "sweepable Pd tR vmR largesR ordsR \<and> EnterIsolateAsHelper T0 \<and> BypassSafepoints T0 \<and>
   tasks vmR = 0 \<and>
   (\<exists>s1. ConcurrentSweeperTask 1 2 0x40000 0xC0000 0x80000 0x100000 7 vmR = Inr (tR, s1) \<and>
      events s1 = [MonitorEnter, EvSetTasks 1, EvSetPhase kSweeping, MonitorExit] \<and>
      tasks s1 = 1 \<and> phase s1 = kSweeping \<and>
      (\<exists>s2 mid. Run Pd T0 tR s1 = Some (Inr s2) \<and>
         events s2 = events s1 @ mid @ [MonitorEnter, EvSetTasks 0, EvSetPhase kDone,
                                        EvNotifyAll, MonitorExit] \<and>
         list_all (\<lambda>ev. \<not> writes_count_or_phase ev) mid \<and>
         tasks s2 = 0 \<and> phase s2 = kDone) \<and>
      Run Pd T0 tR (s1\<lparr>phase := kMarking\<rparr>) = Some (Inl AssertionFailed) \<and>
      Run Pd T0 tR (s1\<lparr>phase := kSweeping\<rparr>) \<noteq> Some (Inl AssertionFailed))"
proof -
  define s1 where
    "s1 = emit MonitorExit (set_phase kSweeping (set_tasks (tasks vmR + 1) (emit MonitorEnter vmR)))"
  have c: "ConcurrentSweeperTask 1 2 0x40000 0xC0000 0x80000 0x100000 7 vmR = Inr (tR, s1)"
    by (simp add: s1_def ConcurrentSweeperTask_def tR_def)
  have T: "EnterIsolateAsHelper T0" "BypassSafepoints T0" by (simp_all add: T0_def)
  have v: "tasks vmR = 0" "events vmR = []" by (simp_all add: vmR_def)
  note p = task_phase_protocol [OF c example_sweepable T]
  from p v have 1: "events s1 = [MonitorEnter, EvSetTasks 1, EvSetPhase kSweeping, MonitorExit]"
    "tasks s1 = 1" "phase s1 = kSweeping" by simp_all
  from p obtain s2 mid where r: "Run Pd T0 tR s1 = Some (Inr s2)"
    and e: "events s2 = events s1 @ mid @ [MonitorEnter, EvSetTasks (tasks s1 - 1),
                                          EvSetPhase kDone, EvNotifyAll, MonitorExit]"
    and m: "list_all (\<lambda>ev. \<not> writes_count_or_phase ev) mid"
    and d: "tasks s2 = tasks vmR" "phase s2 = kDone" by blast
  from e 1(2) have e': "events s2 = events s1 @ mid @ [MonitorEnter, EvSetTasks 0,
                                          EvSetPhase kDone, EvNotifyAll, MonitorExit]" by simp
  from d v have d': "tasks s2 = 0" by simp
  from r e' m d' d(2) have 2: "\<exists>s2 mid. Run Pd T0 tR s1 = Some (Inr s2) \<and>
         events s2 = events s1 @ mid @ [MonitorEnter, EvSetTasks 0, EvSetPhase kDone,
                                        EvNotifyAll, MonitorExit] \<and>
         list_all (\<lambda>ev. \<not> writes_count_or_phase ev) mid \<and>
         tasks s2 = 0 \<and> phase s2 = kDone" by blast
  from p have f: "Run Pd T0 tR (s1\<lparr>phase := ph\<rparr>) = Some (Inl AssertionFailed) \<longleftrightarrow> ph \<noteq> kSweeping"
    for ph by blast
  have 3: "Run Pd T0 tR (s1\<lparr>phase := kMarking\<rparr>) = Some (Inl AssertionFailed)"
    using f [of kMarking] by simp
  have 4: "Run Pd T0 tR (s1\<lparr>phase := kSweeping\<rparr>) \<noteq> Some (Inl AssertionFailed)"
    using f [of kSweeping] by simp
  from c 1 2 3 4 have "\<exists>s1. ConcurrentSweeperTask 1 2 0x40000 0xC0000 0x80000 0x100000 7 vmR = Inr (tR, s1) \<and>
      events s1 = [MonitorEnter, EvSetTasks 1, EvSetPhase kSweeping, MonitorExit] \<and>
      tasks s1 = 1 \<and> phase s1 = kSweeping \<and>
      (\<exists>s2 mid. Run Pd T0 tR s1 = Some (Inr s2) \<and>
         events s2 = events s1 @ mid @ [MonitorEnter, EvSetTasks 0, EvSetPhase kDone,
                                        EvNotifyAll, MonitorExit] \<and>
         list_all (\<lambda>ev. \<not> writes_count_or_phase ev) mid \<and>
         tasks s2 = 0 \<and> phase s2 = kDone) \<and>
      Run Pd T0 tR (s1\<lparr>phase := kMarking\<rparr>) = Some (Inl AssertionFailed) \<and>
      Run Pd T0 tR (s1\<lparr>phase := kSweeping\<rparr>) \<noteq> Some (Inl AssertionFailed)"
    by blast
  with example_sweepable T v(1) show ?thesis by simp
qed




end
